theory Spec2Isabelle
  imports Main
begin

section \<open>The Windows attach listener (attachListener\_windows.cpp)\<close>

text \<open>
  A shallow embedding of \<^verbatim>\<open>src/hotspot/os/windows/attachListener_windows.cpp\<close>:
  the preallocated request objects with their intrusive \<^verbatim>\<open>_next\<close> link live in an
  explicit store (address to object), the three list heads \<^verbatim>\<open>_avail\<close>,
  \<^verbatim>\<open>_head\<close>, \<^verbatim>\<open>_tail\<close> are pointers into it (\<open>None\<close> is
  \<^verbatim>\<open>nullptr\<close>), the semaphore is its count, and everything the operating system
  decides (the result of a wait, whether a pipe opens, what is read from it) is an
  explicit argument.  Logging calls have no effect on the state and are left out.
\<close>

subsection \<open>C strings\<close>

text \<open>
  A \<^verbatim>\<open>const char*\<close> argument is the bytes found at the pointer; the C string it
  denotes ends before the first NUL byte (or at the end of the bytes given).
\<close>

definition NUL :: char where
  "NUL = CHR 0x00"

definition c_str :: "string \<Rightarrow> string" where
  "c_str s = takeWhile (\<lambda>c. c \<noteq> NUL) s"

definition strlen :: "string \<Rightarrow> nat" where
  "strlen s = length (c_str s)"

text \<open>
  \<^verbatim>\<open>strncpy(dst, src, n)\<close> writes exactly \<open>n\<close> bytes: the string, cut at \<open>n\<close>,
  padded with NUL bytes.  \<^verbatim>\<open>strcpy(dst, src)\<close> writes the string and its terminator.
  The bytes of \<open>dst\<close> behind what is written stay as they are.
\<close>

definition strncpy :: "string \<Rightarrow> string \<Rightarrow> nat \<Rightarrow> string" where
  "strncpy dst src n = take n (c_str src @ replicate n NUL) @ drop n dst"

definition strcpy :: "string \<Rightarrow> string \<Rightarrow> string" where
  "strcpy dst src = c_str src @ [NUL] @ drop (strlen src + 1) dst"

text \<open>
  \<^verbatim>\<open>strstr(haystack, needle)\<close>: the offset of the first occurrence of the needle,
  \<open>None\<close> for the null pointer it returns when there is none.
\<close>

fun find_first :: "string \<Rightarrow> string \<Rightarrow> nat option" where
  "find_first [] needle = (if needle = [] then Some 0 else None)"
| "find_first (h # hs) needle =
     (if take (length needle) (h # hs) = needle then Some 0
      else map_option Suc (find_first hs needle))"

definition strstr :: "string \<Rightarrow> string \<Rightarrow> nat option" where
  "strstr haystack needle = find_first (c_str haystack) (c_str needle)"

subsection \<open>Constants\<close>

text \<open>
  \<^verbatim>\<open>AttachOperation::name_length_max\<close> and \<^verbatim>\<open>AttachOperation::arg_length_max\<close>
  are declared in \<^verbatim>\<open>services/attachListener.hpp\<close>, which is not part of the sources
  at hand; they are parameters of the model.
\<close>

record AttachOperation_limits =
  name_length_max :: nat
  arg_length_max :: nat

text \<open>
  Modelled from the spec: \<^verbatim>\<open>AttachOperation::arg_count_max\<close> (declared in the
  missing \<^verbatim>\<open>services/attachListener.hpp\<close>) is the "fixed argument count (3)".
\<close>

definition arg_count_max :: nat where
  "arg_count_max = 3"

definition pipe_name_max :: nat where
  "pipe_name_max = 256"

definition max_enqueued_operations :: nat where
  "max_enqueued_operations = 4"

definition ATTACH_ERROR_DISABLED :: int where
  "ATTACH_ERROR_DISABLED = 100"

definition ATTACH_ERROR_RESOURCE :: int where
  "ATTACH_ERROR_RESOURCE = 101"

definition ATTACH_ERROR_ILLEGALARG :: int where
  "ATTACH_ERROR_ILLEGALARG = 102"

definition ATTACH_ERROR_INTERNAL :: int where
  "ATTACH_ERROR_INTERNAL = 103"

text \<open>The string literal \<^verbatim>\<open>"\\\\.\\pipe\\"\<close>, that is \<^verbatim>\<open>\\.\pipe\\<close>.\<close>

definition pipe_prefix :: string where
  "pipe_prefix = [CHR 0x5C, CHR 0x5C, CHR ''.'', CHR 0x5C] @ ''pipe'' @ [CHR 0x5C]"

text \<open>
  Modelled from the spec: the enum \<^verbatim>\<open>AttachAPIVersion\<close> (declared in the missing
  \<^verbatim>\<open>services/attachListener.hpp\<close>) is the "protocol version tag (V1|V2)"; any other
  value of the enum's underlying type is the "unsupported version" that
  \<^verbatim>\<open>dequeue\<close> handles in its \<^verbatim>\<open>default:\<close> branch.
\<close>

datatype AttachAPIVersion = ATTACH_API_V1 | ATTACH_API_V2 | ATTACH_API_unsupported int

text \<open>The results of \<^verbatim>\<open>WaitForSingleObject\<close>.\<close>

datatype wait_result = WAIT_OBJECT_0 | WAIT_ABANDONED | WAIT_TIMEOUT | WAIT_FAILED

text \<open>
  The ways the code stops the VM or the thread: a failed \<^verbatim>\<open>guarantee\<close> on a wait,
  the failed \<^verbatim>\<open>guarantee(not_exceeding_semaphore_maximum_count)\<close>, and the
  dereference of a null \<^verbatim>\<open>request\<close> in \<^verbatim>\<open>dequeue\<close>.
\<close>

datatype fatal = Wait_guarantee_failed | Semaphore_guarantee_failed | Null_dereference

subsection \<open>Win32AttachOperationRequest\<close>

text \<open>
  The fields \<^verbatim>\<open>_ver\<close>, \<^verbatim>\<open>_name\<close>, \<^verbatim>\<open>_arg\<close>, \<^verbatim>\<open>_pipe\<close>, \<^verbatim>\<open>_next\<close>.
  Each character array is the list of its bytes.
\<close>

record Win32AttachOperationRequest =
  r_ver :: AttachAPIVersion
  r_name :: string
  r_arg :: "string list"
  r_pipe :: string
  r_next :: "nat option"

text \<open>
  \<^verbatim>\<open>set_value(dst, str, dst_size)\<close>.  The \<^verbatim>\<open>assert\<close> in it is compiled only into
  debug builds and is not modelled as a branch; on the calls made from \<^verbatim>\<open>enqueue\<close>
  its condition, \<^verbatim>\<open>strlen(str) < dst_size\<close>, is what the checks made there leave.
\<close>

definition set_value :: "string \<Rightarrow> string option \<Rightarrow> nat \<Rightarrow> string" where
  "set_value dst str dst_size =
     (case str of
        Some s \<Rightarrow> (strncpy dst s (dst_size - 1)) [dst_size - 1 := NUL]
      | None \<Rightarrow> strcpy dst [])"

definition request_set ::
  "AttachOperation_limits \<Rightarrow> Win32AttachOperationRequest \<Rightarrow> AttachAPIVersion \<Rightarrow>
   string option \<Rightarrow> string option \<Rightarrow> string option \<Rightarrow> string option \<Rightarrow> string option \<Rightarrow>
   Win32AttachOperationRequest" where
  "request_set lims this ver pipename cmd arg0 arg1 arg2 =
     (let r1 = this\<lparr>r_ver := ver\<rparr>;
          r2 = r1\<lparr>r_name := set_value (r_name r1) cmd (name_length_max lims + 1)\<rparr>;
          r3 = r2\<lparr>r_arg := (r_arg r2) [0 := set_value (r_arg r2 ! 0) arg0 (arg_length_max lims + 1)]\<rparr>;
          r4 = r3\<lparr>r_arg := (r_arg r3) [1 := set_value (r_arg r3 ! 1) arg1 (arg_length_max lims + 1)]\<rparr>;
          r5 = r4\<lparr>r_arg := (r_arg r4) [2 := set_value (r_arg r4 ! 2) arg2 (arg_length_max lims + 1)]\<rparr>
      in r5\<lparr>r_pipe := set_value (r_pipe r5) pipename (pipe_name_max + 1)\<rparr>)"

text \<open>The accessors: each returns a pointer to the field's bytes.\<close>

definition ver :: "Win32AttachOperationRequest \<Rightarrow> AttachAPIVersion" where
  "ver this = r_ver this"

definition cmd :: "Win32AttachOperationRequest \<Rightarrow> string" where
  "cmd this = r_name this"

definition arg :: "Win32AttachOperationRequest \<Rightarrow> int \<Rightarrow> string option" where
  "arg this i = (if i \<ge> 0 \<and> i < int arg_count_max then Some (r_arg this ! nat i) else None)"

definition pipe :: "Win32AttachOperationRequest \<Rightarrow> string" where
  "pipe this = r_pipe this"

text \<open>
  The storage \<^verbatim>\<open>new\<close> hands to the constructor is not initialised: its content is
  whatever the \<open>junk\<close> says, only the sizes of the arrays are fixed by the type.
\<close>

record uninitialized =
  junk_ver :: AttachAPIVersion
  junk_bytes :: "nat \<Rightarrow> char"
  junk_next :: "nat option"

definition raw_storage :: "AttachOperation_limits \<Rightarrow> uninitialized \<Rightarrow> Win32AttachOperationRequest" where
  "raw_storage lims junk =
     \<lparr> r_ver = junk_ver junk,
       r_name = map (junk_bytes junk) [0 ..< name_length_max lims + 1],
       r_arg = map (\<lambda>i. map (\<lambda>k. junk_bytes junk (name_length_max lims + 1 + i * (arg_length_max lims + 1) + k))
                            [0 ..< arg_length_max lims + 1])
                   [0 ..< arg_count_max],
       r_pipe = map (\<lambda>k. junk_bytes junk (name_length_max lims + 1 + arg_count_max * (arg_length_max lims + 1) + k))
                    [0 ..< pipe_name_max + 1],
       r_next = junk_next junk \<rparr>"

text \<open>The no-argument constructor: \<^verbatim>\<open>set(ATTACH_API_V1, "<nopipe>"); set_next(nullptr);\<close>\<close>

definition new_Win32AttachOperationRequest ::
  "AttachOperation_limits \<Rightarrow> uninitialized \<Rightarrow> Win32AttachOperationRequest" where
  "new_Win32AttachOperationRequest lims junk =
     (request_set lims (raw_storage lims junk) ATTACH_API_V1 (Some ''<nopipe>'') None None None None)
       \<lparr>r_next := None\<rparr>"

subsection \<open>Win32AttachListener\<close>

text \<open>
  The statics of the class: the request objects by address, the head \<^verbatim>\<open>_avail\<close> of
  the preallocated list, \<^verbatim>\<open>_head\<close> and \<^verbatim>\<open>_tail\<close> of the list of enqueued
  operations, and the count of \<^verbatim>\<open>_enqueued_ops_semaphore\<close>.
\<close>

record Win32AttachListener =
  requests :: "nat \<Rightarrow> Win32AttachOperationRequest"
  available :: "nat option"
  head :: "nat option"
  tail :: "nat option"
  enqueued_ops_semaphore :: nat

definition set_next :: "nat \<Rightarrow> nat option \<Rightarrow> Win32AttachListener \<Rightarrow> Win32AttachListener" where
  "set_next this nxt st = st\<lparr>requests := (requests st) (this := (requests st this)\<lparr>r_next := nxt\<rparr>)\<rparr>"

definition next_of :: "Win32AttachListener \<Rightarrow> nat \<Rightarrow> nat option" where
  "next_of st this = r_next (requests st this)"

text \<open>
  \<^verbatim>\<open>init\<close>: the \<open>i\<close>-th \<^verbatim>\<open>new\<close> returns the fresh address \<open>i\<close>; each object is
  pushed on the available list.  The call
  \<^verbatim>\<open>AttachListener::set_supported_version(ATTACH_API_V2)\<close> changes nothing that
  \<^verbatim>\<open>enqueue\<close> or \<^verbatim>\<open>dequeue\<close> read and is left out.
\<close>

definition init_push :: "AttachOperation_limits \<Rightarrow> (nat \<Rightarrow> uninitialized) \<Rightarrow> nat \<Rightarrow> Win32AttachListener \<Rightarrow> Win32AttachListener" where
  "init_push lims junk i st =
     (let op = i;
          st1 = st\<lparr>requests := (requests st) (op := new_Win32AttachOperationRequest lims (junk i))\<rparr>;
          st2 = set_next op (available st1) st1
      in st2\<lparr>available := Some op\<rparr>)"

definition init :: "AttachOperation_limits \<Rightarrow> (nat \<Rightarrow> uninitialized) \<Rightarrow> Win32AttachListener" where
  "init lims junk =
     fold (init_push lims junk) [0 ..< max_enqueued_operations]
       \<lparr> requests = (\<lambda>a. raw_storage lims (junk a)),
         available = None, head = None, tail = None,
         enqueued_ops_semaphore = 0 \<rparr>"

text \<open>
  \<^verbatim>\<open>ReleaseSemaphore(h, n, nullptr)\<close> on a semaphore created with the maximum count
  \<^verbatim>\<open>max_enqueued_operations\<close>: it fails, and changes nothing, when the count would
  exceed the maximum.
\<close>

definition ReleaseSemaphore :: "nat \<Rightarrow> nat \<Rightarrow> nat option" where
  "ReleaseSemaphore count n =
     (if count + n > max_enqueued_operations then None else Some (count + n))"

subsection \<open>enqueue\<close>

text \<open>
  The wait for the listener: \<open>is_initialized k\<close> is what
  \<^verbatim>\<open>AttachListener::is_initialized()\<close> answers after \<open>k\<close> calls of
  \<^verbatim>\<open>Sleep(1000)\<close>.  The result says whether the loop was left by its condition
  (\<open>True\<close>) or by the \<^verbatim>\<open>return ATTACH_ERROR_DISABLED\<close>, and how often it slept.
\<close>

function wait_for_listener :: "(nat \<Rightarrow> bool) \<Rightarrow> nat \<Rightarrow> bool \<times> nat" where
  "wait_for_listener is_initialized sleep_count =
     (if \<not> is_initialized sleep_count then
        (let sleep_count' = sleep_count + 1
         in if sleep_count' > 10 then (False, sleep_count')
            else wait_for_listener is_initialized sleep_count')
      else (True, sleep_count))"
  by pat_completeness auto
termination
  by (relation "measure (\<lambda>(f, n). 11 - n)") auto

record enqueue_env =
  is_initialized :: "nat \<Rightarrow> bool"
  mutex_wait :: wait_result

text \<open>The part of \<^verbatim>\<open>enqueue\<close> that runs with the mutex held.\<close>

definition enqueue_locked ::
  "AttachOperation_limits \<Rightarrow> AttachAPIVersion \<Rightarrow> string \<Rightarrow> string \<Rightarrow> string \<Rightarrow> string \<Rightarrow> string \<Rightarrow>
   Win32AttachListener \<Rightarrow> fatal + (int \<times> Win32AttachListener)" where
  "enqueue_locked lims v command arg0 arg1 arg2 pipename st =
     (case available st of
        None \<Rightarrow> Inr (ATTACH_ERROR_RESOURCE, st)
      | Some op \<Rightarrow>
          (let st1 = st\<lparr>available := next_of st op\<rparr>;
               st2 = set_next op None st1;
               st3 = (case tail st2 of
                        None \<Rightarrow> st2\<lparr>head := Some op\<rparr>
                      | Some t \<Rightarrow> set_next t (Some op) st2);
               st4 = st3\<lparr>tail := Some op\<rparr>;
               st5 = st4\<lparr>requests := (requests st4)
                        (op := request_set lims (requests st4 op) v (Some pipename)
                                 (Some command) (Some arg0) (Some arg1) (Some arg2))\<rparr>
           in case ReleaseSemaphore (enqueued_ops_semaphore st5) 1 of
                None \<Rightarrow> Inl Semaphore_guarantee_failed
              | Some c \<Rightarrow> Inr (0, st5\<lparr>enqueued_ops_semaphore := c\<rparr>)))"

definition enqueue ::
  "AttachOperation_limits \<Rightarrow> enqueue_env \<Rightarrow> AttachAPIVersion \<Rightarrow> string \<Rightarrow> string \<Rightarrow> string \<Rightarrow> string \<Rightarrow> string \<Rightarrow>
   Win32AttachListener \<Rightarrow> fatal + (int \<times> Win32AttachListener)" where
  "enqueue lims env v command arg0 arg1 arg2 pipename st =
     (if \<not> fst (wait_for_listener (is_initialized env) 0) then Inr (ATTACH_ERROR_DISABLED, st)
      else if strlen command > name_length_max lims then Inr (ATTACH_ERROR_ILLEGALARG, st)
      else if strlen arg0 > arg_length_max lims then Inr (ATTACH_ERROR_ILLEGALARG, st)
      else if strlen arg1 > arg_length_max lims then Inr (ATTACH_ERROR_ILLEGALARG, st)
      else if strlen arg2 > arg_length_max lims then Inr (ATTACH_ERROR_ILLEGALARG, st)
      else if strlen pipename > pipe_name_max then Inr (ATTACH_ERROR_ILLEGALARG, st)
      else if strstr pipename pipe_prefix \<noteq> Some 0 then Inr (ATTACH_ERROR_ILLEGALARG, st)
      else if mutex_wait env \<noteq> WAIT_OBJECT_0 then Inr (ATTACH_ERROR_INTERNAL, st)
      else enqueue_locked lims v command arg0 arg1 arg2 pipename st)"

subsection \<open>PipeChannel and Win32AttachOperation\<close>

text \<open>
  \<^verbatim>\<open>_hPipe\<close>: \<open>None\<close> is \<^verbatim>\<open>INVALID_HANDLE_VALUE\<close>.  The calls a channel makes to
  the operating system are recorded as events.
\<close>

record PipeChannel =
  hPipe :: "nat option"

datatype pipe_event =
    WriteFile nat string bool
  | FlushFileBuffers nat
  | CloseHandle nat
  | Log_error


text \<open>
  \<^verbatim>\<open>PipeChannel::open\<close>: \<open>create_file\<close> is what \<^verbatim>\<open>CreateFile\<close> returns for the
  named pipe and the access mode.
\<close>

definition pipe_open :: "(string \<Rightarrow> bool \<Rightarrow> nat option) \<Rightarrow> PipeChannel \<Rightarrow> string \<Rightarrow> bool \<Rightarrow> bool \<times> PipeChannel" where
  "pipe_open create_file this pipe_name write_only =
     (let this' = this\<lparr>hPipe := create_file (c_str pipe_name) write_only\<rparr>
      in if hPipe this' = None then (False, this') else (True, this'))"

definition pipe_close :: "PipeChannel \<Rightarrow> pipe_event list \<times> PipeChannel" where
  "pipe_close this =
     (case hPipe this of
        Some h \<Rightarrow> ([CloseHandle h], this\<lparr>hPipe := None\<rparr>)
      | None \<Rightarrow> ([], this))"

text \<open>
  \<^verbatim>\<open>PipeChannel::write\<close> and \<^verbatim>\<open>PipeChannel::flush\<close> on an opened channel (their
  \<^verbatim>\<open>assert(opened())\<close> is debug only); \<open>fSuccess\<close> is what \<^verbatim>\<open>WriteFile\<close> returns,
  and a successful \<^verbatim>\<open>WriteFile\<close> on a blocking pipe writes the whole buffer.  On a
  channel that is not opened the calls fail on the invalid handle.
\<close>

definition pipe_write :: "bool \<Rightarrow> PipeChannel \<Rightarrow> string \<Rightarrow> pipe_event list \<times> int" where
  "pipe_write fSuccess this buffer =
     (case hPipe this of
        None \<Rightarrow> ([Log_error], -1)
      | Some h \<Rightarrow>
          if \<not> fSuccess then ([WriteFile h buffer False, Log_error], -1)
          else ([WriteFile h buffer True], int (length buffer)))"

definition pipe_flush :: "PipeChannel \<Rightarrow> pipe_event list" where
  "pipe_flush this = (case hPipe this of None \<Rightarrow> [] | Some h \<Rightarrow> [FlushFileBuffers h])"

text \<open>
  A \<^verbatim>\<open>Win32AttachOperation\<close>: the name and the arguments kept by the base class
  \<^verbatim>\<open>AttachOperation\<close>, and the channel \<^verbatim>\<open>_pipe\<close>.
\<close>

record Win32AttachOperation =
  op_name :: string
  op_args :: "string option list"
  op_pipe :: PipeChannel

definition new_Win32AttachOperation :: Win32AttachOperation where
  "new_Win32AttachOperation = \<lparr> op_name = [], op_args = [], op_pipe = \<lparr> hPipe = None \<rparr> \<rparr>"

text \<open>
  Modelled from the spec: \<^verbatim>\<open>AttachOperation::set_name\<close> and
  \<^verbatim>\<open>AttachOperation::append_arg\<close> (in the missing \<^verbatim>\<open>services/attachListener.hpp\<close>):
  the Operation "carries resolved command name and arguments (for V1, copied from the
  slot before the slot returns to the pool)".  Each keeps a copy of the C string at the
  pointer it is given.
\<close>

definition set_name :: "Win32AttachOperation \<Rightarrow> string \<Rightarrow> Win32AttachOperation" where
  "set_name this name = this\<lparr>op_name := c_str name\<rparr>"

definition append_arg :: "Win32AttachOperation \<Rightarrow> string option \<Rightarrow> Win32AttachOperation" where
  "append_arg this a = this\<lparr>op_args := op_args this @ [map_option c_str a]\<rparr>"

definition open_pipe ::
  "(string \<Rightarrow> bool \<Rightarrow> nat option) \<Rightarrow> Win32AttachOperation \<Rightarrow> string \<Rightarrow> bool \<Rightarrow> bool \<times> Win32AttachOperation" where
  "open_pipe create_file this pipe_name write_only =
     (let (ok, p) = pipe_open create_file (op_pipe this) pipe_name write_only
      in (ok, this\<lparr>op_pipe := p\<rparr>))"

subsection \<open>dequeue\<close>

text \<open>
  What the operating system and the client decide during one iteration of the loop of
  \<^verbatim>\<open>dequeue\<close>: the results of the two waits, what \<^verbatim>\<open>CreateFile\<close> returns, and
  what \<^verbatim>\<open>AttachOperation::read_request\<close> (not part of the sources at hand) reads
  from the pipe: \<open>None\<close> when it fails, the name and the arguments otherwise.
\<close>

record dequeue_env =
  semaphore_wait :: wait_result
  lock_wait :: wait_result
  create_file :: "string \<Rightarrow> bool \<Rightarrow> nat option"
  read_request :: "(string \<times> string option list) option"

datatype 'a progress = Blocked | Aborted fatal | Done 'a

text \<open>
  The wait on the semaphore and its two \<^verbatim>\<open>guarantee\<close>s.  A wait that is going to
  return \<^verbatim>\<open>WAIT_OBJECT_0\<close> returns once the count is positive, and decreases it.
\<close>

definition dequeue_wait :: "wait_result \<Rightarrow> Win32AttachListener \<Rightarrow> Win32AttachListener progress" where
  "dequeue_wait res st =
     (if res = WAIT_FAILED then Aborted Wait_guarantee_failed
      else if res \<noteq> WAIT_OBJECT_0 then Aborted Wait_guarantee_failed
      else if enqueued_ops_semaphore st = 0 then Blocked
      else Done (st\<lparr>enqueued_ops_semaphore := enqueued_ops_semaphore st - 1\<rparr>))"

text \<open>The \<^verbatim>\<open>switch (request->ver())\<close>; a deleted operation is \<open>None\<close>.\<close>

definition dispatch :: "dequeue_env \<Rightarrow> Win32AttachOperationRequest \<Rightarrow> Win32AttachOperation option" where
  "dispatch env request =
     (case ver request of
        ATTACH_API_V1 \<Rightarrow>
          (let op = new_Win32AttachOperation;
               op1 = set_name op (cmd request);
               op2 = fold (\<lambda>i this. append_arg this (arg request (int i))) [0 ..< arg_count_max] op1;
               (ok, op3) = open_pipe (create_file env) op2 (pipe request) True
           in if \<not> ok then None else Some op3)
      | ATTACH_API_V2 \<Rightarrow>
          (let op = new_Win32AttachOperation;
               (ok, op1) = open_pipe (create_file env) op (pipe request) False
           in if \<not> ok then None
              else (case read_request env of
                      None \<Rightarrow> None
                    | Some (name, args) \<Rightarrow> Some (op1\<lparr>op_name := name, op_args := args\<rparr>)))
      | ATTACH_API_unsupported n \<Rightarrow> None)"

text \<open>
  From the wait on the mutex to the end of the \<^verbatim>\<open>if (request != nullptr)\<close>: the
  result is the local \<^verbatim>\<open>op\<close>, the local \<^verbatim>\<open>request\<close> and the state.
\<close>

definition dequeue_take ::
  "dequeue_env \<Rightarrow> Win32AttachListener \<Rightarrow>
   (Win32AttachOperation option \<times> nat option \<times> Win32AttachListener) progress" where
  "dequeue_take env st =
     (if lock_wait env = WAIT_FAILED then Aborted Wait_guarantee_failed
      else if lock_wait env \<noteq> WAIT_OBJECT_0 then Aborted Wait_guarantee_failed
      else (case head st of
              None \<Rightarrow> Done (None, None, st)
            | Some request \<Rightarrow>
                (let st1 = st\<lparr>head := next_of st request\<rparr>;
                     st2 = (if head st1 = None then st1\<lparr>tail := None\<rparr> else st1)
                 in Done (dispatch env (requests st2 request), Some request, st2))))"

text \<open>
  "put the operation back on the available list": \<^verbatim>\<open>request\<close> is dereferenced
  whether or not it is null.
\<close>

definition dequeue_put_back :: "nat option \<Rightarrow> Win32AttachListener \<Rightarrow> Win32AttachListener progress" where
  "dequeue_put_back request st =
     (case request of
        None \<Rightarrow> Aborted Null_dereference
      | Some r \<Rightarrow> Done ((set_next r (available st) st)\<lparr>available := Some r\<rparr>))"

text \<open>One iteration of the \<^verbatim>\<open>for (;;)\<close>, with no other thread running in between.\<close>

definition dequeue_iteration ::
  "dequeue_env \<Rightarrow> Win32AttachListener \<Rightarrow>
   (Win32AttachOperation option \<times> nat option \<times> Win32AttachListener) progress" where
  "dequeue_iteration env st =
     (case dequeue_wait (semaphore_wait env) st of
        Blocked \<Rightarrow> Blocked
      | Aborted f \<Rightarrow> Aborted f
      | Done st0 \<Rightarrow>
          (case dequeue_take env st0 of
             Blocked \<Rightarrow> Blocked
           | Aborted f \<Rightarrow> Aborted f
           | Done (op, request, st1) \<Rightarrow>
               (case dequeue_put_back request st1 of
                  Blocked \<Rightarrow> Blocked
                | Aborted f \<Rightarrow> Aborted f
                | Done st2 \<Rightarrow> Done (op, request, st2))))"

text \<open>
  \<^verbatim>\<open>Win32AttachListener::dequeue\<close> with no other thread running: \<open>envs i\<close> is the
  environment of the \<open>i\<close>-th iteration from now.  \<open>Blocked\<close> is the wait on a
  semaphore that nobody is left to release.
\<close>

function dequeue ::
  "(nat \<Rightarrow> dequeue_env) \<Rightarrow> Win32AttachListener \<Rightarrow> (Win32AttachOperation \<times> Win32AttachListener) progress" where
  "dequeue envs st =
     (case dequeue_iteration (envs 0) st of
        Blocked \<Rightarrow> Blocked
      | Aborted f \<Rightarrow> Aborted f
      | Done (op, request, st') \<Rightarrow>
          (case op of
             Some this \<Rightarrow> Done (this, st')
           | None \<Rightarrow> dequeue (\<lambda>i. envs (Suc i)) st'))"
  by pat_completeness auto
termination
  by (relation "measure (\<lambda>(envs, st). enqueued_ops_semaphore st)")
     (auto simp: dequeue_iteration_def dequeue_wait_def dequeue_take_def dequeue_put_back_def
                 set_next_def Let_def
           split: if_splits progress.splits option.splits prod.splits)

subsection \<open>The two lists as sequences of addresses\<close>

text \<open>
  \<open>walk h n p\<close> follows the \<^verbatim>\<open>_next\<close> links from \<open>p\<close> to the null pointer and
  returns the addresses passed, \<open>None\<close> if there are more than \<open>n\<close> of them (as on a
  cycle).
\<close>

fun walk :: "(nat \<Rightarrow> Win32AttachOperationRequest) \<Rightarrow> nat \<Rightarrow> nat option \<Rightarrow> nat list option" where
  "walk h n None = Some []"
| "walk h 0 (Some a) = None"
| "walk h (Suc n) (Some a) = map_option (Cons a) (walk h n (r_next (h a)))"

definition pending_queue :: "Win32AttachListener \<Rightarrow> nat list option" where
  "pending_queue st = walk (requests st) max_enqueued_operations (head st)"

definition free_pool :: "Win32AttachListener \<Rightarrow> nat list option" where
  "free_pool st = walk (requests st) max_enqueued_operations (available st)"

primrec path :: "(nat \<Rightarrow> Win32AttachOperationRequest) \<Rightarrow> nat option \<Rightarrow> nat list \<Rightarrow> bool" where
  "path h p [] = (p = None)"
| "path h p (a # as) = (p = Some a \<and> path h (r_next (h a)) as)"

subsection \<open>Producers and the consumer, interleaved\<close>

text \<open>
  Where the one consumer thread stands in \<^verbatim>\<open>dequeue\<close>: before the wait on the
  semaphore, between that wait and the wait on the mutex, or holding the mutex with its
  locals \<^verbatim>\<open>request\<close> and \<^verbatim>\<open>op\<close> set, before the request is put back.
\<close>

datatype consumer =
    At_semaphore
  | At_mutex
  | In_service "nat option" "Win32AttachOperation option"

record system =
  listener :: Win32AttachListener
  consumer :: consumer

definition in_flight :: "system \<Rightarrow> nat list" where
  "in_flight s = (case consumer s of In_service (Some r) op \<Rightarrow> [r] | _ \<Rightarrow> [])"

text \<open>
  The steps of a schedule.  A call of \<^verbatim>\<open>enqueue\<close> changes the shared state only
  with the mutex held, so it is one step, and it has to wait while the consumer holds the
  mutex.  The consumer's iteration is three steps: the wait on the semaphore, the part
  up to the end of the \<^verbatim>\<open>if\<close>, and the putting back.
\<close>

datatype action =
    Enqueue enqueue_env AttachAPIVersion string string string string string
  | Semaphore_wait wait_result
  | Take dequeue_env
  | Put_back

fun step :: "AttachOperation_limits \<Rightarrow> action \<Rightarrow> system \<Rightarrow> system progress" where
  "step lims (Enqueue env v command arg0 arg1 arg2 pipename) s =
     (case consumer s of
        In_service request op \<Rightarrow> Blocked
      | _ \<Rightarrow>
          (case enqueue lims env v command arg0 arg1 arg2 pipename (listener s) of
             Inl f \<Rightarrow> Aborted f
           | Inr (rc, st') \<Rightarrow> Done (s\<lparr>listener := st'\<rparr>)))"
| "step lims (Semaphore_wait res) s =
     (case consumer s of
        At_semaphore \<Rightarrow>
          (case dequeue_wait res (listener s) of
             Blocked \<Rightarrow> Blocked
           | Aborted f \<Rightarrow> Aborted f
           | Done st' \<Rightarrow> Done \<lparr>listener = st', consumer = At_mutex\<rparr>)
      | _ \<Rightarrow> Blocked)"
| "step lims (Take env) s =
     (case consumer s of
        At_mutex \<Rightarrow>
          (case dequeue_take env (listener s) of
             Blocked \<Rightarrow> Blocked
           | Aborted f \<Rightarrow> Aborted f
           | Done (op, request, st') \<Rightarrow> Done \<lparr>listener = st', consumer = In_service request op\<rparr>)
      | _ \<Rightarrow> Blocked)"
| "step lims Put_back s =
     (case consumer s of
        In_service request op \<Rightarrow>
          (case dequeue_put_back request (listener s) of
             Blocked \<Rightarrow> Blocked
           | Aborted f \<Rightarrow> Aborted f
           | Done st' \<Rightarrow> Done \<lparr>listener = st', consumer = At_semaphore\<rparr>)
      | _ \<Rightarrow> Blocked)"

fun exec :: "AttachOperation_limits \<Rightarrow> action list \<Rightarrow> system \<Rightarrow> system progress" where
  "exec lims [] s = Done s"
| "exec lims (a # as) s =
     (case step lims a s of
        Blocked \<Rightarrow> Blocked
      | Aborted f \<Rightarrow> Aborted f
      | Done s' \<Rightarrow> exec lims as s')"

definition boot :: "AttachOperation_limits \<Rightarrow> (nat \<Rightarrow> uninitialized) \<Rightarrow> system" where
  "boot lims junk = \<lparr>listener = init lims junk, consumer = At_semaphore\<rparr>"

subsection \<open>Calls in sequence\<close>

text \<open>The arguments of one call of \<^verbatim>\<open>enqueue\<close>, with what its environment does.\<close>

record enqueue_call =
  call_env :: enqueue_env
  call_ver :: AttachAPIVersion
  call_cmd :: string
  call_arg0 :: string
  call_arg1 :: string
  call_arg2 :: string
  call_pipename :: string

definition enqueue_call :: "AttachOperation_limits \<Rightarrow> enqueue_call \<Rightarrow> Win32AttachListener \<Rightarrow> fatal + (int \<times> Win32AttachListener)" where
  "enqueue_call lims c st =
     enqueue lims (call_env c) (call_ver c) (call_cmd c) (call_arg0 c) (call_arg1 c) (call_arg2 c)
       (call_pipename c) st"

text \<open>
  A call that gets as far as the available list: the listener is found initialized,
  no length is over its bound, the pipe name starts with the prefix, and the mutex is
  acquired.
\<close>

definition passes_checks :: "AttachOperation_limits \<Rightarrow> enqueue_call \<Rightarrow> bool" where
  "passes_checks lims c \<longleftrightarrow>
     fst (wait_for_listener (is_initialized (call_env c)) 0) \<and>
     strlen (call_cmd c) \<le> name_length_max lims \<and>
     strlen (call_arg0 c) \<le> arg_length_max lims \<and>
     strlen (call_arg1 c) \<le> arg_length_max lims \<and>
     strlen (call_arg2 c) \<le> arg_length_max lims \<and>
     strlen (call_pipename c) \<le> pipe_name_max \<and>
     take (length pipe_prefix) (c_str (call_pipename c)) = pipe_prefix \<and>
     mutex_wait (call_env c) = WAIT_OBJECT_0"

text \<open>
  The calls one after the other, nothing in between: the return code of each and the
  \<^verbatim>\<open>_tail\<close> it leaves, which after a successful call is the slot just appended.
\<close>

fun enqueue_all ::
  "AttachOperation_limits \<Rightarrow> enqueue_call list \<Rightarrow> Win32AttachListener \<Rightarrow>
   fatal + ((int \<times> nat option) list \<times> Win32AttachListener)" where
  "enqueue_all lims [] st = Inr ([], st)"
| "enqueue_all lims (c # cs) st =
     (case enqueue_call lims c st of
        Inl f \<Rightarrow> Inl f
      | Inr (rc, st') \<Rightarrow>
          (case enqueue_all lims cs st' of
             Inl f \<Rightarrow> Inl f
           | Inr (rs, st'') \<Rightarrow> Inr ((rc, tail st') # rs, st'')))"

text \<open>
  What a reader of a slot gets: the version and the C strings in the four kinds of
  buffer.  And what a call sends.
\<close>

type_synonym request_view = "AttachAPIVersion \<times> string \<times> string list \<times> string"

definition view :: "Win32AttachOperationRequest \<Rightarrow> request_view" where
  "view r = (ver r, c_str (cmd r), map c_str (r_arg r), c_str (pipe r))"

definition sent :: "enqueue_call \<Rightarrow> request_view" where
  "sent c = (call_ver c, c_str (call_cmd c),
             [c_str (call_arg0 c), c_str (call_arg1 c), c_str (call_arg2 c)],
             c_str (call_pipename c))"

text \<open>
  Iterations of the loop of \<^verbatim>\<open>dequeue\<close> one after the other, one per environment,
  whether or not an iteration produces an operation: of each, the slot it popped, what
  that slot held, and the operation built.
\<close>

fun serve ::
  "dequeue_env list \<Rightarrow> Win32AttachListener \<Rightarrow>
   ((nat option \<times> request_view option \<times> Win32AttachOperation option) list \<times> Win32AttachListener) progress" where
  "serve [] st = Done ([], st)"
| "serve (e # es) st =
     (case dequeue_iteration e st of
        Blocked \<Rightarrow> Blocked
      | Aborted f \<Rightarrow> Aborted f
      | Done (op, request, st') \<Rightarrow>
          (case serve es st' of
             Blocked \<Rightarrow> Blocked
           | Aborted f \<Rightarrow> Aborted f
           | Done (rs, st'') \<Rightarrow>
               Done ((request, map_option (\<lambda>r. view (requests st' r)) request, op) # rs, st'')))"

definition waits_succeed :: "dequeue_env \<Rightarrow> bool" where
  "waits_succeed e \<longleftrightarrow> semaphore_wait e = WAIT_OBJECT_0 \<and> lock_wait e = WAIT_OBJECT_0"

text \<open>What a state of the schedule shows, if the schedule gets there.\<close>

definition observe :: "('a \<Rightarrow> 'b) \<Rightarrow> 'a progress \<Rightarrow> 'b option" where
  "observe f r = (case r of Done s \<Rightarrow> Some (f s) | _ \<Rightarrow> None)"

subsection \<open>Completing an operation\<close>

text \<open>
  Modelled from the spec: \<^verbatim>\<open>AttachOperation::write_reply\<close> (in the missing
  \<^verbatim>\<open>services/attachListener.cpp\<close>): "a shared reply-writer serializes the numeric
  result followed by free-form textual output, then the Channel is flushed"; "a failed
  write is logged and swallowed".  The spec leaves the encoding of the number open:
  \<open>encode\<close> is a parameter.  \<open>fSuccess k\<close> is the outcome of the \<open>k\<close>-th
  \<^verbatim>\<open>WriteFile\<close>.
\<close>

definition write_reply ::
  "(int \<Rightarrow> string) \<Rightarrow> (nat \<Rightarrow> bool) \<Rightarrow> PipeChannel \<Rightarrow> int \<Rightarrow> string \<Rightarrow> pipe_event list" where
  "write_reply encode fSuccess writer result result_stream =
     (let (ev1, n1) = pipe_write (fSuccess 0) writer (encode result);
          (ev2, n2) = pipe_write (fSuccess 1) writer result_stream
      in ev1 @ ev2 @ pipe_flush writer)"

text \<open>
  \<^verbatim>\<open>Win32AttachOperation::complete\<close>.  The operations that \<^verbatim>\<open>new\<close> made and
  \<^verbatim>\<open>delete\<close> has not yet destroyed are a store from addresses to objects;
  \<^verbatim>\<open>this\<close> is an address.  \<^verbatim>\<open>delete this\<close> runs the destructor of
  \<^verbatim>\<open>_pipe\<close>, which calls \<^verbatim>\<open>close()\<close>, and takes the object out of the store.
  A call on an address that holds no object has no defined behaviour: \<open>None\<close>.
\<close>

definition complete ::
  "(int \<Rightarrow> string) \<Rightarrow> (nat \<Rightarrow> bool) \<Rightarrow> nat \<Rightarrow> int \<Rightarrow> string \<Rightarrow> (nat \<rightharpoonup> Win32AttachOperation) \<Rightarrow>
   (pipe_event list \<times> (nat \<rightharpoonup> Win32AttachOperation)) option" where
  "complete encode fSuccess this result result_stream ops =
     (case ops this of
        None \<Rightarrow> None
      | Some obj \<Rightarrow>
          (let ev = write_reply encode fSuccess (op_pipe obj) result result_stream;
               (ev', p) = pipe_close (op_pipe obj)
           in Some (ev @ ev', ops (this := None))))"

subsection \<open>Invariants\<close>

text \<open>The sizes of the arrays of a request, as its type fixes them.\<close>

definition sized :: "AttachOperation_limits \<Rightarrow> Win32AttachOperationRequest \<Rightarrow> bool" where
  "sized lims r \<longleftrightarrow>
     length (r_name r) = name_length_max lims + 1 \<and>
     length (r_arg r) = arg_count_max \<and>
     (\<forall>i < arg_count_max. length (r_arg r ! i) = arg_length_max lims + 1) \<and>
     length (r_pipe r) = pipe_name_max + 1"

text \<open>\<open>p\<close> is the available list, \<open>q\<close> the list of enqueued operations.\<close>

definition wf_lists :: "Win32AttachListener \<Rightarrow> nat list \<Rightarrow> nat list \<Rightarrow> bool" where
  "wf_lists st p q \<longleftrightarrow>
     path (requests st) (available st) p \<and> path (requests st) (head st) q \<and>
     tail st = (if q = [] then None else Some (last q))"

text \<open>The state between calls, when no thread is inside \<^verbatim>\<open>dequeue\<close> past its wait.\<close>

definition at_rest :: "AttachOperation_limits \<Rightarrow> Win32AttachListener \<Rightarrow> nat list \<Rightarrow> nat list \<Rightarrow> bool" where
  "at_rest lims st p q \<longleftrightarrow>
     wf_lists st p q \<and> distinct (p @ q) \<and> set (p @ q) = {..< max_enqueued_operations} \<and>
     enqueued_ops_semaphore st = length q \<and> (\<forall>a. sized lims (requests st a))"

definition sys_inv :: "AttachOperation_limits \<Rightarrow> system \<Rightarrow> nat list \<Rightarrow> nat list \<Rightarrow> bool" where
  "sys_inv lims s p q \<longleftrightarrow>
     wf_lists (listener s) p q \<and>
     distinct (p @ q @ in_flight s) \<and>
     set (p @ q @ in_flight s) = {..< max_enqueued_operations} \<and>
     enqueued_ops_semaphore (listener s) + (if consumer s = At_mutex then 1 else 0) = length q \<and>
     (\<forall>op. consumer s \<noteq> In_service None op) \<and>
     (\<forall>a. sized lims (requests (listener s) a))"

subsection \<open>Observations\<close>

text \<open>
  What the properties below read off a state of the schedule or off the events of a
  channel: the count of the semaphore, the length of the list of enqueued operations,
  whether the schedule got to a state at all, where the consumer stands and what the two
  lists are, and how many closes and flushes a channel has seen.
\<close>

definition semaphore_count :: "system \<Rightarrow> nat" where
  "semaphore_count s = enqueued_ops_semaphore (listener s)"

definition queue_length :: "system \<Rightarrow> nat option" where
  "queue_length s = map_option length (pending_queue (listener s))"

definition reached :: "'a progress \<Rightarrow> bool" where
  "reached r = (case r of Done s \<Rightarrow> True | _ \<Rightarrow> False)"


definition closes :: "pipe_event list \<Rightarrow> nat" where
  "closes evs = length (filter (\<lambda>ev. case ev of CloseHandle h \<Rightarrow> True | _ \<Rightarrow> False) evs)"

definition flushes :: "pipe_event list \<Rightarrow> nat" where
  "flushes evs = length (filter (\<lambda>ev. case ev of FlushFileBuffers h \<Rightarrow> True | _ \<Rightarrow> False) evs)"

subsection \<open>Concrete inputs for the examples\<close>

text \<open>
  The bounds of the JDK, and short ones for the examples that are evaluated; storage
  with arbitrary content; a listener that is up and one that never comes up; calls of
  \<^verbatim>\<open>enqueue\<close> (the last one with every string as long as its bound); environments of
  \<^verbatim>\<open>dequeue\<close> in which the pipe opens or does not; and an operation to complete.
\<close>

definition jdk_limits :: AttachOperation_limits where
  "jdk_limits = \<lparr>name_length_max = 16, arg_length_max = 1024\<rparr>"

definition short_limits :: AttachOperation_limits where
  "short_limits = \<lparr>name_length_max = 4, arg_length_max = 4\<rparr>"

definition no_junk :: "nat \<Rightarrow> uninitialized" where
  "no_junk i = \<lparr>junk_ver = ATTACH_API_unsupported 0, junk_bytes = (\<lambda>k. CHR ''?''), junk_next = Some 7\<rparr>"

definition always_initialized :: "nat \<Rightarrow> bool" where
  "always_initialized k = True"

definition never_initialized :: "nat \<Rightarrow> bool" where
  "never_initialized k = False"

definition listener_up :: enqueue_env where
  "listener_up = \<lparr>is_initialized = always_initialized, mutex_wait = WAIT_OBJECT_0\<rparr>"

definition listener_down :: enqueue_env where
  "listener_down = \<lparr>is_initialized = never_initialized, mutex_wait = WAIT_OBJECT_0\<rparr>"

definition ping :: action where
  "ping = Enqueue listener_up ATTACH_API_V1 ''C'' ''a'' [] [] (pipe_prefix @ ''reply'')"

definition call_C :: enqueue_call where
  "call_C = \<lparr>call_env = listener_up, call_ver = ATTACH_API_V1, call_cmd = ''C'',
             call_arg0 = ''a'', call_arg1 = [], call_arg2 = [],
             call_pipename = pipe_prefix @ ''reply''\<rparr>"

definition call_load :: enqueue_call where
  "call_load = \<lparr>call_env = listener_up, call_ver = ATTACH_API_V1, call_cmd = ''load'',
             call_arg0 = ''inst'', call_arg1 = ''true'', call_arg2 = [],
             call_pipename = pipe_prefix @ ''tool2''\<rparr>"

definition call_longest :: enqueue_call where
  "call_longest = \<lparr>call_env = listener_up, call_ver = ATTACH_API_V1, call_cmd = ''load'',
             call_arg0 = ''inst'', call_arg1 = ''true'', call_arg2 = ''4444'',
             call_pipename = pipe_prefix @ replicate 247 (CHR ''p'')\<rparr>"

definition opens :: "string \<Rightarrow> bool \<Rightarrow> nat option" where
  "opens pipe_name write_only = Some 42"

definition pipe_opens :: dequeue_env where
  "pipe_opens = \<lparr>semaphore_wait = WAIT_OBJECT_0, lock_wait = WAIT_OBJECT_0, create_file = opens, read_request = None\<rparr>"

definition open_fails :: dequeue_env where
  "open_fails = \<lparr>semaphore_wait = WAIT_OBJECT_0, lock_wait = WAIT_OBJECT_0,
                 create_file = (\<lambda>pipe_name write_only. None), read_request = None\<rparr>"


definition always_opens :: "nat \<Rightarrow> dequeue_env" where
  "always_opens i = pipe_opens"

definition writes_fail :: "nat \<Rightarrow> bool" where
  "writes_fail k = False"

definition one_line :: "int \<Rightarrow> string" where
  "one_line r = (if r = 0 then ''0'' else ''1'') @ [CHR 0x0A]"

definition an_operation :: Win32AttachOperation where
  "an_operation = \<lparr>op_name = ''C'', op_args = [Some ''a'', Some [], Some []], op_pipe = \<lparr>hPipe = Some 42\<rparr>\<rparr>"

section \<open>Properties\<close>

subsection \<open>C strings and buffers\<close>

lemma c_str_no_NUL: "NUL \<notin> set (c_str s)"
  unfolding c_str_def using set_takeWhileD by fastforce

lemma c_str_idem [simp]: "c_str (c_str s) = c_str s"
  by (simp add: c_str_def)

lemma c_str_append_NUL: "NUL \<notin> set xs \<Longrightarrow> c_str (xs @ NUL # ys) = xs"
  by (induction xs) (auto simp: c_str_def)

lemma c_str_no_terminator: "NUL \<notin> set xs \<Longrightarrow> c_str xs = xs"
  by (induction xs) (auto simp: c_str_def)

lemma find_first_0: "find_first h n = Some 0 \<longleftrightarrow> take (length n) h = n"
  by (cases h) auto

lemma c_str_pipe_prefix: "c_str pipe_prefix = pipe_prefix"
  by (simp add: c_str_def pipe_prefix_def NUL_def)

lemma strstr_pipe_prefix:
  "strstr pn pipe_prefix = Some 0 \<longleftrightarrow> take (length pipe_prefix) (c_str pn) = pipe_prefix"
  by (simp add: strstr_def c_str_pipe_prefix find_first_0)

lemma set_value_Some:
  assumes len: "length dst = n" and fits: "strlen s < n"
  shows "set_value dst (Some s) n = c_str s @ replicate (n - strlen s) NUL"
proof -
  define m where "m = n - 1"
  have n: "n = Suc m" using fits by (simp add: m_def)
  have fit: "length (c_str s) \<le> m" using fits n by (simp add: strlen_def)
  have 1: "take m (c_str s @ replicate m NUL) = c_str s @ replicate (m - length (c_str s)) NUL"
    using fit by simp
  have "length (drop m dst) = 1" using len n by simp
  then obtain x where 2: "drop m dst = [x]" by (cases "drop m dst") auto
  have "strncpy dst s m = (c_str s @ replicate (m - length (c_str s)) NUL) @ [x]"
    using fit by (simp add: strncpy_def 2)
  moreover have "length (c_str s @ replicate (m - length (c_str s)) NUL) = m" using fit by simp
  ultimately have "(strncpy dst s m) [m := NUL] = (c_str s @ replicate (m - length (c_str s)) NUL) @ [NUL]"
    by (metis list_update_length)
  also have "\<dots> = c_str s @ replicate (Suc (m - length (c_str s))) NUL"
    by (simp add: replicate_append_same)
  finally show ?thesis
    using fit by (simp add: set_value_def m_def [symmetric] n Suc_diff_le strlen_def)
qed

lemma c_str_set_value:
  "length dst = n \<Longrightarrow> strlen s < n \<Longrightarrow> c_str (set_value dst (Some s) n) = c_str s"
proof -
  assume a: "length dst = n" "strlen s < n"
  then obtain j where "n - strlen s = Suc j" by (cases "n - strlen s") auto
  with set_value_Some [OF a] have "set_value dst (Some s) n = c_str s @ NUL # replicate j NUL"
    by simp
  then show ?thesis by (simp add: c_str_append_NUL c_str_no_NUL)
qed

lemma length_set_value:
  "length dst = n \<Longrightarrow> 0 < n \<Longrightarrow> length (set_value dst str n) = n"
  by (cases str) (auto simp: set_value_def strcpy_def strncpy_def c_str_def strlen_def)

lemma set_value_terminated:
  "length dst = n \<Longrightarrow> strlen s < n \<Longrightarrow> set_value dst (Some s) n ! strlen s = NUL"
  by (simp add: set_value_Some nth_append strlen_def)

lemma set_value_last:
  "length dst = n \<Longrightarrow> strlen s < n \<Longrightarrow> set_value dst (Some s) n ! (n - 1) = NUL"
  by (auto simp: set_value_Some nth_append strlen_def)

subsection \<open>Requests\<close>

lemma r_next_request_set [simp]:
  "r_next (request_set lims this v pn c a0 a1 a2) = r_next this"
  by (simp add: request_set_def Let_def)

lemma view_next [simp]: "view (r\<lparr>r_next := x\<rparr>) = view r"
  by (simp add: view_def ver_def cmd_def pipe_def)

lemma sized_next [simp]: "sized lims (r\<lparr>r_next := x\<rparr>) = sized lims r"
  by (simp add: sized_def)

lemma sized_raw_storage: "sized lims (raw_storage lims junk)"
  by (simp add: sized_def raw_storage_def)

lemma sized_args:
  assumes "sized lims r"
  obtains b0 b1 b2 where "r_arg r = [b0, b1, b2]"
    "length b0 = arg_length_max lims + 1" "length b1 = arg_length_max lims + 1"
    "length b2 = arg_length_max lims + 1"
proof -
  from assms have l: "length (r_arg r) = 3"
    and a: "\<forall>i < 3. length (r_arg r ! i) = arg_length_max lims + 1"
    by (simp_all add: sized_def arg_count_max_def)
  from l obtain b0 b1 b2 where e: "r_arg r = [b0, b1, b2]"
    by (cases "r_arg r"; cases "tl (r_arg r)"; cases "tl (tl (r_arg r))") auto
  from a have "length (r_arg r ! 0) = arg_length_max lims + 1"
    "length (r_arg r ! 1) = arg_length_max lims + 1"
    "length (r_arg r ! 2) = arg_length_max lims + 1" by simp_all
  then show thesis using e that by simp
qed

lemma sized_intro:
  "length (r_name r) = name_length_max lims + 1 \<Longrightarrow> r_arg r = [b0, b1, b2] \<Longrightarrow>
   length b0 = arg_length_max lims + 1 \<Longrightarrow> length b1 = arg_length_max lims + 1 \<Longrightarrow>
   length b2 = arg_length_max lims + 1 \<Longrightarrow> length (r_pipe r) = pipe_name_max + 1 \<Longrightarrow>
   sized lims r"
  by (auto simp: sized_def arg_count_max_def less_Suc_eq numeral_3_eq_3)

lemma request_set_fields:
  assumes "sized lims r"
  obtains b0 b1 b2 where "r_arg r = [b0, b1, b2]"
    "length b0 = arg_length_max lims + 1" "length b1 = arg_length_max lims + 1"
    "length b2 = arg_length_max lims + 1"
    "request_set lims r v pn c a0 a1 a2 =
       r\<lparr>r_ver := v,
         r_name := set_value (r_name r) c (name_length_max lims + 1),
         r_arg := [set_value b0 a0 (arg_length_max lims + 1),
                   set_value b1 a1 (arg_length_max lims + 1),
                   set_value b2 a2 (arg_length_max lims + 1)],
         r_pipe := set_value (r_pipe r) pn (pipe_name_max + 1)\<rparr>"
proof -
  from sized_args [OF assms] obtain b0 b1 b2 where e: "r_arg r = [b0, b1, b2]"
    and l: "length b0 = arg_length_max lims + 1" "length b1 = arg_length_max lims + 1"
    "length b2 = arg_length_max lims + 1" by blast
  have "request_set lims r v pn c a0 a1 a2 =
       r\<lparr>r_ver := v,
         r_name := set_value (r_name r) c (name_length_max lims + 1),
         r_arg := [set_value b0 a0 (arg_length_max lims + 1),
                   set_value b1 a1 (arg_length_max lims + 1),
                   set_value b2 a2 (arg_length_max lims + 1)],
         r_pipe := set_value (r_pipe r) pn (pipe_name_max + 1)\<rparr>"
    by (simp add: request_set_def Let_def e)
  with e l that show thesis by blast
qed

lemma sized_request_set:
  assumes "sized lims r"
  shows "sized lims (request_set lims r v pn c a0 a1 a2)"
proof -
  from request_set_fields [OF assms, of v pn c a0 a1 a2]
  obtain b0 b1 b2 where l: "length b0 = arg_length_max lims + 1" "length b1 = arg_length_max lims + 1"
    "length b2 = arg_length_max lims + 1"
    and e: "request_set lims r v pn c a0 a1 a2 =
       r\<lparr>r_ver := v,
         r_name := set_value (r_name r) c (name_length_max lims + 1),
         r_arg := [set_value b0 a0 (arg_length_max lims + 1),
                   set_value b1 a1 (arg_length_max lims + 1),
                   set_value b2 a2 (arg_length_max lims + 1)],
         r_pipe := set_value (r_pipe r) pn (pipe_name_max + 1)\<rparr>" by blast
  from assms have n: "length (r_name r) = name_length_max lims + 1"
    and p: "length (r_pipe r) = pipe_name_max + 1" by (simp_all add: sized_def)
  show ?thesis unfolding e
    by (rule sized_intro [where ?b0.0 = "set_value b0 a0 (arg_length_max lims + 1)"
          and ?b1.0 = "set_value b1 a1 (arg_length_max lims + 1)"
          and ?b2.0 = "set_value b2 a2 (arg_length_max lims + 1)"])
       (simp_all add: length_set_value n p l)
qed

lemma sized_new: "sized lims (new_Win32AttachOperationRequest lims junk)"
  by (simp add: new_Win32AttachOperationRequest_def sized_request_set sized_raw_storage)

lemma view_request_set:
  assumes sz: "sized lims r"
    and c: "strlen c \<le> name_length_max lims"
    and a: "strlen a0 \<le> arg_length_max lims" "strlen a1 \<le> arg_length_max lims"
           "strlen a2 \<le> arg_length_max lims"
    and p: "strlen pn \<le> pipe_name_max"
  shows "view (request_set lims r v (Some pn) (Some c) (Some a0) (Some a1) (Some a2)) =
         (v, c_str c, [c_str a0, c_str a1, c_str a2], c_str pn)"
proof -
  from request_set_fields [OF sz, of v "Some pn" "Some c" "Some a0" "Some a1" "Some a2"]
  obtain b0 b1 b2 where l: "length b0 = arg_length_max lims + 1" "length b1 = arg_length_max lims + 1"
    "length b2 = arg_length_max lims + 1"
    and e: "request_set lims r v (Some pn) (Some c) (Some a0) (Some a1) (Some a2) =
       r\<lparr>r_ver := v,
         r_name := set_value (r_name r) (Some c) (name_length_max lims + 1),
         r_arg := [set_value b0 (Some a0) (arg_length_max lims + 1),
                   set_value b1 (Some a1) (arg_length_max lims + 1),
                   set_value b2 (Some a2) (arg_length_max lims + 1)],
         r_pipe := set_value (r_pipe r) (Some pn) (pipe_name_max + 1)\<rparr>" by blast
  from sz have n: "length (r_name r) = name_length_max lims + 1"
    and pl: "length (r_pipe r) = pipe_name_max + 1" by (simp_all add: sized_def)
  show ?thesis unfolding e using c a p
    by (simp add: view_def ver_def cmd_def pipe_def c_str_set_value n pl l)
qed

subsection \<open>Paths\<close>

lemma walk_path: "walk h n p = Some xs \<longleftrightarrow> path h p xs \<and> length xs \<le> n"
proof (induction h n p arbitrary: xs rule: walk.induct)
  case (1 h n)
  then show ?case by (cases xs) auto
next
  case (2 h a)
  then show ?case by (cases xs) auto
next
  case (3 h n a)
  then show ?case by (cases xs) auto
qed

lemma path_upd_other: "a \<notin> set xs \<Longrightarrow> path (h(a := r)) p xs = path h p xs"
  by (induction xs arbitrary: p) auto

lemma path_upd_same_next: "r_next r = r_next (h a) \<Longrightarrow> path (h(a := r)) p xs = path h p xs"
  by (induction xs arbitrary: p) auto

lemma path_snoc:
  "path h p xs \<Longrightarrow> xs \<noteq> [] \<Longrightarrow> distinct xs \<Longrightarrow> op \<notin> set xs \<Longrightarrow> r_next (h op) = None \<Longrightarrow>
   path (h(last xs := (h (last xs))\<lparr>r_next := Some op\<rparr>)) p (xs @ [op])"
proof (induction xs arbitrary: p)
  case Nil then show ?case by simp
next
  case (Cons a xs)
  show ?case
  proof (cases "xs = []")
    case True
    with Cons.prems show ?thesis by auto
  next
    case False
    define h' where "h' = h(last xs := (h (last xs))\<lparr>r_next := Some op\<rparr>)"
    from Cons.prems False have "path h' (r_next (h a)) (xs @ [op])"
      unfolding h'_def by (intro Cons.IH) auto
    moreover have "a \<noteq> last xs" using Cons.prems False by auto
    then have "h' a = h a" by (simp add: h'_def)
    moreover have "p = Some a" using Cons.prems by simp
    ultimately have *: "path h' p ((a # xs) @ [op])" by simp
    have eq: "h(last (a # xs) := (h (last (a # xs)))\<lparr>r_next := Some op\<rparr>) = h'"
      using False by (simp add: h'_def)
    show ?thesis unfolding eq using * .
  qed
qed

subsection \<open>The list operations of enqueue and dequeue\<close>

lemma enqueue_locked_empty:
  "wf_lists st [] q \<Longrightarrow> enqueue_locked lims v c a0 a1 a2 pn st = Inr (ATTACH_ERROR_RESOURCE, st)"
  by (simp add: wf_lists_def enqueue_locked_def)

lemma enqueue_locked_push:
  assumes wf: "wf_lists st (op # p) q"
    and dist: "distinct (op # p @ q)"
    and sem: "enqueued_ops_semaphore st < max_enqueued_operations"
  shows "\<exists>st'. enqueue_locked lims v c a0 a1 a2 pn st = Inr (0, st') \<and>
           wf_lists st' p (q @ [op]) \<and>
           enqueued_ops_semaphore st' = enqueued_ops_semaphore st + 1 \<and>
           requests st' op = request_set lims ((requests st op)\<lparr>r_next := None\<rparr>) v (Some pn) (Some c) (Some a0) (Some a1) (Some a2) \<and>
           (\<forall>a. a \<noteq> op \<longrightarrow> (\<exists>nx. requests st' a = (requests st a)\<lparr>r_next := nx\<rparr>))"
proof -
  let ?h = "requests st"
  from wf have av: "available st = Some op" and pp: "path ?h (r_next (?h op)) p"
    and pq: "path ?h (head st) q" and tl: "tail st = (if q = [] then None else Some (last q))"
    by (auto simp: wf_lists_def)
  define new where "new = request_set lims ((?h op)\<lparr>r_next := None\<rparr>) v (Some pn) (Some c) (Some a0) (Some a1) (Some a2)"
  have new_next: "r_next new = None" by (simp add: new_def)
  show ?thesis
  proof (cases "q = []")
    case True
    define st' where "st' = st\<lparr>available := r_next (?h op), requests := ?h(op := new), head := Some op, tail := Some op,
        enqueued_ops_semaphore := enqueued_ops_semaphore st + 1\<rparr>"
    have e: "enqueue_locked lims v c a0 a1 a2 pn st = Inr (0, st')"
      using av tl True sem
      by (simp add: enqueue_locked_def Let_def set_next_def next_of_def ReleaseSemaphore_def st'_def new_def)
    have "op \<notin> set p" using dist by simp
    then have "path (?h(op := new)) (r_next (?h op)) p" using pp by (simp add: path_upd_other)
    then have "wf_lists st' p (q @ [op])"
      using True new_next by (simp add: wf_lists_def st'_def)
    moreover have "\<forall>a. a \<noteq> op \<longrightarrow> (\<exists>nx. requests st' a = (requests st a)\<lparr>r_next := nx\<rparr>)"
    proof (intro allI impI)
      fix a assume "a \<noteq> op"
      then have "requests st' a = (requests st a)\<lparr>r_next := r_next (requests st a)\<rparr>"
        by (simp add: st'_def)
      then show "\<exists>nx. requests st' a = (requests st a)\<lparr>r_next := nx\<rparr>" ..
    qed
    moreover have "requests st' op = new" "enqueued_ops_semaphore st' = enqueued_ops_semaphore st + 1"
      by (simp_all add: st'_def)
    ultimately show ?thesis using e unfolding new_def by blast
  next
    case False
    define t where "t = last q"
    have tq: "t \<in> set q" using False by (simp add: t_def)
    have opq: "op \<notin> set q" and opp: "op \<notin> set p" and tp: "t \<notin> set p" and top: "t \<noteq> op"
      using dist tq by auto
    define h2 where "h2 = ?h(op := (?h op)\<lparr>r_next := None\<rparr>)"
    define h3 where "h3 = h2(t := (h2 t)\<lparr>r_next := Some op\<rparr>)"
    define st' where "st' = st\<lparr>available := r_next (?h op), requests := h3(op := new), tail := Some op,
        enqueued_ops_semaphore := enqueued_ops_semaphore st + 1\<rparr>"
    have h3op: "h3 op = (?h op)\<lparr>r_next := None\<rparr>" using top by (simp add: h3_def h2_def)
    have e: "enqueue_locked lims v c a0 a1 a2 pn st = Inr (0, st')"
      using av tl False sem h3op
      by (simp add: enqueue_locked_def Let_def set_next_def next_of_def ReleaseSemaphore_def st'_def new_def
          t_def [symmetric] h2_def [symmetric] h3_def [symmetric])
    have "path h2 (head st) q" using pq opq by (simp add: h2_def path_upd_other)
    moreover have "distinct q" using dist by simp
    moreover have "r_next (h2 op) = None" by (simp add: h2_def)
    ultimately have "path h3 (head st) (q @ [op])"
      unfolding h3_def t_def using False opq by (intro path_snoc) auto
    then have 1: "path (h3(op := new)) (head st) (q @ [op])"
      using h3op new_next by (simp add: path_upd_same_next)
    have "path h2 (r_next (?h op)) p" using pp opp by (simp add: h2_def path_upd_other)
    then have "path h3 (r_next (?h op)) p" using tp by (simp add: h3_def path_upd_other)
    then have 2: "path (h3(op := new)) (r_next (?h op)) p" using opp by (simp add: path_upd_other)
    have "wf_lists st' p (q @ [op])" using 1 2 by (simp add: wf_lists_def st'_def)
    moreover have "\<forall>a. a \<noteq> op \<longrightarrow> (\<exists>nx. requests st' a = (requests st a)\<lparr>r_next := nx\<rparr>)"
    proof (intro allI impI)
      fix a assume "a \<noteq> op"
      then have "requests st' a = (requests st a)\<lparr>r_next := r_next (h3 a)\<rparr>"
        by (simp add: st'_def h3_def h2_def)
      then show "\<exists>nx. requests st' a = (requests st a)\<lparr>r_next := nx\<rparr>" ..
    qed
    moreover have "requests st' op = new" "enqueued_ops_semaphore st' = enqueued_ops_semaphore st + 1"
      by (simp_all add: st'_def)
    ultimately show ?thesis using e unfolding new_def by blast
  qed
qed

lemma dequeue_take_pop:
  assumes wf: "wf_lists st p (r # q)" and ok: "lock_wait env = WAIT_OBJECT_0"
  shows "\<exists>st'. dequeue_take env st = Done (dispatch env (requests st r), Some r, st') \<and>
           wf_lists st' p q \<and> requests st' = requests st \<and>
           enqueued_ops_semaphore st' = enqueued_ops_semaphore st"
proof -
  from wf have hd: "head st = Some r" and pq: "path (requests st) (r_next (requests st r)) q"
    and pp: "path (requests st) (available st) p" and tl: "tail st = Some (last (r # q))"
    by (auto simp: wf_lists_def)
  show ?thesis
  proof (cases q)
    case Nil
    with hd pq pp ok show ?thesis
      by (simp add: dequeue_take_def Let_def next_of_def wf_lists_def)
  next
    case (Cons a as)
    with hd pq pp tl ok show ?thesis
      by (simp add: dequeue_take_def Let_def next_of_def wf_lists_def)
  qed
qed

lemma dequeue_put_back_push:
  assumes wf: "wf_lists st p q" and fresh: "r \<notin> set (p @ q)"
  shows "\<exists>st'. dequeue_put_back (Some r) st = Done st' \<and> wf_lists st' (r # p) q \<and>
           enqueued_ops_semaphore st' = enqueued_ops_semaphore st \<and>
           (\<forall>a. \<exists>nx. requests st' a = (requests st a)\<lparr>r_next := nx\<rparr>)"
proof -
  define h' where "h' = (requests st)(r := (requests st r)\<lparr>r_next := available st\<rparr>)"
  from wf fresh have "path h' (available st) p" "path h' (head st) q"
    by (simp_all add: wf_lists_def h'_def path_upd_other)
  moreover have "r_next (h' r) = available st" by (simp add: h'_def)
  ultimately have "wf_lists (st\<lparr>requests := h', available := Some r\<rparr>) (r # p) q"
    using wf by (simp add: wf_lists_def)
  moreover have "dequeue_put_back (Some r) st = Done (st\<lparr>requests := h', available := Some r\<rparr>)"
    by (simp add: dequeue_put_back_def set_next_def h'_def)
  moreover have "\<forall>a. \<exists>nx. requests (st\<lparr>requests := h', available := Some r\<rparr>) a = (requests st a)\<lparr>r_next := nx\<rparr>"
  proof
    fix a
    have "requests (st\<lparr>requests := h', available := Some r\<rparr>) a = (requests st a)\<lparr>r_next := r_next (h' a)\<rparr>"
      by (simp add: h'_def)
    then show "\<exists>nx. requests (st\<lparr>requests := h', available := Some r\<rparr>) a = (requests st a)\<lparr>r_next := nx\<rparr>" ..
  qed
  ultimately show ?thesis by auto
qed

subsection \<open>The initial state\<close>

lemma upt4: "[0 ..< max_enqueued_operations] = [0, 1, 2, 3]"
  by (simp add: max_enqueued_operations_def upt_rec)

lemma slots4: "{..< max_enqueued_operations} = {0, 1, 2, 3}"
  unfolding max_enqueued_operations_def by (simp add: lessThan_nat_numeral lessThan_Suc insert_commute)

lemma init_lists:
  "wf_lists (init lims junk) [3, 2, 1, 0] [] \<and> enqueued_ops_semaphore (init lims junk) = 0"
  by (simp add: init_def upt4 init_push_def wf_lists_def set_next_def
      new_Win32AttachOperationRequest_def Let_def)

lemma init_sized: "sized lims (requests (init lims junk) a)"
  by (simp add: init_def upt4 init_push_def set_next_def Let_def sized_new sized_raw_storage)

lemma at_rest_init: "at_rest lims (init lims junk) [3, 2, 1, 0] []"
  using init_lists [of lims junk] init_sized [of lims junk]
  by (simp add: at_rest_def slots4 insert_commute)

lemma at_rest_length: 
  assumes "at_rest lims st p q"
  shows "length p + length q = max_enqueued_operations"
proof -
  from assms have "distinct (p @ q)" and "set (p @ q) = {..< max_enqueued_operations}"
    by (simp_all add: at_rest_def)
  then have "length (p @ q) = card {..< max_enqueued_operations}"
    using distinct_card [of "p @ q"] by simp
  then show ?thesis by simp
qed

lemma at_rest_walk:
  assumes "at_rest lims st p q"
  shows "free_pool st = Some p" and "pending_queue st = Some q"
  using assms at_rest_length [OF assms]
  by (simp_all add: at_rest_def wf_lists_def free_pool_def pending_queue_def walk_path)

subsection \<open>Calls on a state at rest\<close>

lemma enqueue_call_passes:
  "passes_checks lims c \<Longrightarrow>
   enqueue_call lims c st =
     enqueue_locked lims (call_ver c) (call_cmd c) (call_arg0 c) (call_arg1 c) (call_arg2 c) (call_pipename c) st"
  by (simp add: passes_checks_def enqueue_call_def enqueue_def strstr_pipe_prefix)

lemma sized_push:
  assumes sz: "\<forall>a. sized lims (requests st a)"
    and new: "requests st' op = request_set lims ((requests st op)\<lparr>r_next := None\<rparr>) v pn c a0 a1 a2"
    and others: "\<forall>a. a \<noteq> op \<longrightarrow> (\<exists>nx. requests st' a = (requests st a)\<lparr>r_next := nx\<rparr>)"
  shows "\<forall>a. sized lims (requests st' a)"
proof
  fix a
  show "sized lims (requests st' a)"
  proof (cases "a = op")
    case True
    with new sz show ?thesis by (simp add: sized_request_set)
  next
    case False
    with others obtain nx where "requests st' a = (requests st a)\<lparr>r_next := nx\<rparr>" by blast
    with sz show ?thesis by simp
  qed
qed

lemma enqueue_at_rest:
  assumes rest: "at_rest lims st (op # p) q" and ok: "passes_checks lims c"
  shows "\<exists>st'. enqueue_call lims c st = Inr (0, st') \<and> at_rest lims st' p (q @ [op]) \<and>
           tail st' = Some op \<and> view (requests st' op) = sent c \<and>
           (\<forall>a. a \<noteq> op \<longrightarrow> view (requests st' a) = view (requests st a))"
proof -
  from rest have wf: "wf_lists st (op # p) q" and d: "distinct (op # p @ q)"
    and full: "set ((op # p) @ q) = {..< max_enqueued_operations}"
    and sem: "enqueued_ops_semaphore st = length q" and sz: "\<forall>a. sized lims (requests st a)"
    by (simp_all add: at_rest_def)
  from at_rest_length [OF rest] sem have "enqueued_ops_semaphore st < max_enqueued_operations" by simp
  from enqueue_locked_push [OF wf d this, of lims "call_ver c" "call_cmd c" "call_arg0 c" "call_arg1 c" "call_arg2 c" "call_pipename c"]
  obtain st' where e: "enqueue_locked lims (call_ver c) (call_cmd c) (call_arg0 c) (call_arg1 c) (call_arg2 c) (call_pipename c) st = Inr (0, st')"
    and wf': "wf_lists st' p (q @ [op])"
    and sem': "enqueued_ops_semaphore st' = enqueued_ops_semaphore st + 1"
    and new: "requests st' op = request_set lims ((requests st op)\<lparr>r_next := None\<rparr>) (call_ver c)
                 (Some (call_pipename c)) (Some (call_cmd c)) (Some (call_arg0 c)) (Some (call_arg1 c)) (Some (call_arg2 c))"
    and others: "\<forall>a. a \<noteq> op \<longrightarrow> (\<exists>nx. requests st' a = (requests st a)\<lparr>r_next := nx\<rparr>)"
    by blast
  have sz': "\<forall>a. sized lims (requests st' a)" by (rule sized_push [OF sz new others])
  have "set (p @ q @ [op]) = set ((op # p) @ q)" by auto
  with full have full': "set (p @ q @ [op]) = {..< max_enqueued_operations}" by simp
  have rest': "at_rest lims st' p (q @ [op])"
    using wf' d full' sem sem' sz' by (simp add: at_rest_def)
  have tl': "tail st' = Some op" using wf' by (simp add: wf_lists_def)
  have "sized lims ((requests st op)\<lparr>r_next := None\<rparr>)" using sz by simp
  from view_request_set [OF this, of "call_cmd c" "call_arg0 c" "call_arg1 c" "call_arg2 c" "call_pipename c" "call_ver c"] ok
  have v: "view (requests st' op) = sent c" by (simp add: new sent_def passes_checks_def)
  have o: "\<forall>a. a \<noteq> op \<longrightarrow> view (requests st' a) = view (requests st a)"
  proof (intro allI impI)
    fix a assume "a \<noteq> op"
    with others obtain nx where "requests st' a = (requests st a)\<lparr>r_next := nx\<rparr>" by blast
    then show "view (requests st' a) = view (requests st a)" by simp
  qed
  from e rest' tl' v o show ?thesis by (simp add: enqueue_call_passes [OF ok])
qed

lemma enqueue_at_rest_full:
  assumes rest: "at_rest lims st [] q" and ok: "passes_checks lims c"
  shows "enqueue_call lims c st = Inr (ATTACH_ERROR_RESOURCE, st)"
proof -
  from rest have "wf_lists st [] q" by (simp add: at_rest_def)
  then show ?thesis by (simp add: enqueue_call_passes [OF ok] enqueue_locked_empty)
qed

lemma iteration_at_rest:
  assumes rest: "at_rest lims st p (r # q)" and ok: "waits_succeed e"
  shows "\<exists>st'. dequeue_iteration e st = Done (dispatch e (requests st r), Some r, st') \<and>
           at_rest lims st' (r # p) q \<and> (\<forall>a. view (requests st' a) = view (requests st a))"
proof -
  from rest have wf: "wf_lists st p (r # q)" and d: "distinct (p @ r # q)"
    and full: "set (p @ r # q) = {..< max_enqueued_operations}"
    and sem: "enqueued_ops_semaphore st = Suc (length q)" and sz: "\<forall>a. sized lims (requests st a)"
    by (simp_all add: at_rest_def)
  from ok have w1: "semaphore_wait e = WAIT_OBJECT_0" and w2: "lock_wait e = WAIT_OBJECT_0"
    by (simp_all add: waits_succeed_def)
  define st0 where "st0 = st\<lparr>enqueued_ops_semaphore := enqueued_ops_semaphore st - 1\<rparr>"
  have dw: "dequeue_wait (semaphore_wait e) st = Done st0"
    using w1 sem by (simp add: dequeue_wait_def st0_def)
  have wf0: "wf_lists st0 p (r # q)" using wf by (simp add: wf_lists_def st0_def)
  from dequeue_take_pop [OF wf0 w2]
  obtain st1 where t: "dequeue_take e st0 = Done (dispatch e (requests st0 r), Some r, st1)"
    and wf1: "wf_lists st1 p q" and rq1: "requests st1 = requests st0"
    and sem1: "enqueued_ops_semaphore st1 = enqueued_ops_semaphore st0" by blast
  have fr: "r \<notin> set (p @ q)" using d by auto
  from dequeue_put_back_push [OF wf1 fr]
  obtain st2 where pb: "dequeue_put_back (Some r) st1 = Done st2"
    and wf2: "wf_lists st2 (r # p) q" and sem2: "enqueued_ops_semaphore st2 = enqueued_ops_semaphore st1"
    and same: "\<forall>a. \<exists>nx. requests st2 a = (requests st1 a)\<lparr>r_next := nx\<rparr>" by blast
  have rq0: "requests st0 = requests st" by (simp add: st0_def)
  have it: "dequeue_iteration e st = Done (dispatch e (requests st r), Some r, st2)"
    by (simp add: dequeue_iteration_def dw t pb rq0)
  have sz2: "\<forall>a. sized lims (requests st2 a)"
  proof
    fix a
    from same obtain nx where "requests st2 a = (requests st1 a)\<lparr>r_next := nx\<rparr>" by blast
    with sz rq1 rq0 show "sized lims (requests st2 a)" by simp
  qed
  have v2: "\<forall>a. view (requests st2 a) = view (requests st a)"
  proof
    fix a
    from same obtain nx where "requests st2 a = (requests st1 a)\<lparr>r_next := nx\<rparr>" by blast
    with rq1 rq0 show "view (requests st2 a) = view (requests st a)" by simp
  qed
  have "set ((r # p) @ q) = set (p @ r # q)" by auto
  with full have full2: "set ((r # p) @ q) = {..< max_enqueued_operations}" by simp
  have "enqueued_ops_semaphore st2 = length q" using sem sem1 sem2 by (simp add: st0_def)
  with wf2 d full2 sz2 have "at_rest lims st2 (r # p) q" by (simp add: at_rest_def)
  with it v2 show ?thesis by blast
qed

lemma iteration_at_rest_empty:
  assumes rest: "at_rest lims st p []" and ok: "waits_succeed e"
  shows "dequeue_iteration e st = Blocked"
  using assms by (simp add: at_rest_def waits_succeed_def dequeue_iteration_def dequeue_wait_def)

subsection \<open>The invariant of the interleaved system\<close>

lemma sys_inv_boot: "sys_inv lims (boot lims junk) [3, 2, 1, 0] []"
  using init_lists [of lims junk] init_sized [of lims junk]
  by (simp add: sys_inv_def boot_def in_flight_def slots4 insert_commute)

lemma sys_inv_length:
  assumes "sys_inv lims s p q"
  shows "length p + length q + length (in_flight s) = max_enqueued_operations"
proof -
  from assms have "distinct (p @ q @ in_flight s)"
    and "set (p @ q @ in_flight s) = {..< max_enqueued_operations}"
    by (simp_all add: sys_inv_def)
  then have "length (p @ q @ in_flight s) = card {..< max_enqueued_operations}"
    using distinct_card [of "p @ q @ in_flight s"] by simp
  then show ?thesis by simp
qed

lemma sys_inv_at_rest:
  "sys_inv lims s p q \<Longrightarrow> consumer s = At_semaphore \<Longrightarrow> at_rest lims (listener s) p q"
  by (simp add: sys_inv_def at_rest_def in_flight_def)

lemma enqueue_cases:
  "enqueue lims env v c a0 a1 a2 pn st = Inr (ATTACH_ERROR_DISABLED, st) \<or>
   enqueue lims env v c a0 a1 a2 pn st = Inr (ATTACH_ERROR_ILLEGALARG, st) \<or>
   enqueue lims env v c a0 a1 a2 pn st = Inr (ATTACH_ERROR_INTERNAL, st) \<or>
   enqueue lims env v c a0 a1 a2 pn st = enqueue_locked lims v c a0 a1 a2 pn st"
  by (simp add: enqueue_def)

lemma step_Enqueue_inv:
  assumes inv: "sys_inv lims s p q" and st: "step lims (Enqueue env v c a0 a1 a2 pn) s = r"
  shows "r = Blocked \<or> (\<exists>s' p' q'. r = Done s' \<and> sys_inv lims s' p' q' \<and> consumer s' = consumer s)"
proof (cases "\<exists>rq op. consumer s = In_service rq op")
  case True
  with st show ?thesis by auto
next
  case False
  then have fl: "in_flight s = []" by (auto simp: in_flight_def split: consumer.splits option.splits)
  have stp: "r = (case enqueue lims env v c a0 a1 a2 pn (listener s) of Inl f \<Rightarrow> Aborted f | Inr (rc, st') \<Rightarrow> Done (s\<lparr>listener := st'\<rparr>))"
    using False st by (cases "consumer s") auto
  have same: "sys_inv lims (s\<lparr>listener := listener s\<rparr>) p q" using inv by simp
  consider (unchanged) rc where "enqueue lims env v c a0 a1 a2 pn (listener s) = Inr (rc, listener s)"
    | (locked) "enqueue lims env v c a0 a1 a2 pn (listener s) = enqueue_locked lims v c a0 a1 a2 pn (listener s)"
    using enqueue_cases [of lims env v c a0 a1 a2 pn "listener s"] by blast
  then show ?thesis
  proof cases
    case unchanged
    with stp have "r = Done (s\<lparr>listener := listener s\<rparr>)" by simp
    with same show ?thesis by auto
  next
    case locked
    show ?thesis
    proof (cases p)
      case Nil
      with inv have "wf_lists (listener s) [] q" by (simp add: sys_inv_def)
      from enqueue_locked_empty [OF this, of lims v c a0 a1 a2 pn] locked stp
      have "r = Done (s\<lparr>listener := listener s\<rparr>)" by simp
      with same show ?thesis by auto
    next
      case (Cons op p')
      from inv Cons fl have wf: "wf_lists (listener s) (op # p') q" and d: "distinct (op # p' @ q)"
        and sz: "\<forall>a. sized lims (requests (listener s) a)"
        by (simp_all add: sys_inv_def)
      from sys_inv_length [OF inv] Cons fl have "length q < max_enqueued_operations" by simp
      moreover from inv have "enqueued_ops_semaphore (listener s) \<le> length q"
        by (simp add: sys_inv_def split: if_splits)
      ultimately have "enqueued_ops_semaphore (listener s) < max_enqueued_operations" by simp
      from enqueue_locked_push [OF wf d this, of lims v c a0 a1 a2 pn]
      obtain st' where e: "enqueue_locked lims v c a0 a1 a2 pn (listener s) = Inr (0, st')"
        and wf': "wf_lists st' p' (q @ [op])"
        and sem': "enqueued_ops_semaphore st' = enqueued_ops_semaphore (listener s) + 1"
        and new: "requests st' op = request_set lims ((requests (listener s) op)\<lparr>r_next := None\<rparr>) v (Some pn) (Some c) (Some a0) (Some a1) (Some a2)"
        and others: "\<forall>a. a \<noteq> op \<longrightarrow> (\<exists>nx. requests st' a = (requests (listener s) a)\<lparr>r_next := nx\<rparr>)"
        by blast
      have sz': "\<forall>a. sized lims (requests st' a)" by (rule sized_push [OF sz new others])
      have "in_flight (s\<lparr>listener := st'\<rparr>) = []" using fl by (simp add: in_flight_def)
      then have "sys_inv lims (s\<lparr>listener := st'\<rparr>) p' (q @ [op])"
        using inv Cons fl wf' sem' sz' by (auto simp: sys_inv_def)
      moreover from e locked stp have "r = Done (s\<lparr>listener := st'\<rparr>)" by simp
      ultimately show ?thesis by auto
    qed
  qed
qed

lemma step_Semaphore_wait_inv:
  assumes inv: "sys_inv lims s p q" and st: "step lims (Semaphore_wait res) s = r"
  shows "r = Blocked \<or> r = Aborted Wait_guarantee_failed \<or>
         (\<exists>s'. r = Done s' \<and> sys_inv lims s' p q \<and> consumer s = At_semaphore \<and> consumer s' = At_mutex)"
proof (cases "consumer s")
  case At_semaphore
  with inv st show ?thesis
    by (auto simp: dequeue_wait_def sys_inv_def wf_lists_def in_flight_def split: if_splits)
next
  case At_mutex
  with st show ?thesis by auto
next
  case (In_service x1 x2)
  with st show ?thesis by auto
qed

lemma step_Take_inv:
  assumes inv: "sys_inv lims s p q" and st: "step lims (Take env) s = r"
  shows "r = Blocked \<or> r = Aborted Wait_guarantee_failed \<or>
         (\<exists>s' a q' op. r = Done s' \<and> q = a # q' \<and> sys_inv lims s' p q' \<and> consumer s = At_mutex \<and>
            consumer s' = In_service (Some a) op)"
proof (cases "consumer s")
  case At_semaphore
  with st show ?thesis by auto
next
  case At_mutex
  with inv have "length q = Suc (enqueued_ops_semaphore (listener s))" by (simp add: sys_inv_def)
  then obtain a q' where q: "q = a # q'" by (cases q) auto
  show ?thesis
  proof (cases "lock_wait env = WAIT_OBJECT_0")
    case True
    from inv q have "wf_lists (listener s) p (a # q')" by (simp add: sys_inv_def)
    from dequeue_take_pop [OF this True]
    obtain st' where t: "dequeue_take env (listener s) = Done (dispatch env (requests (listener s) a), Some a, st')"
      and wf': "wf_lists st' p q'" and sem': "enqueued_ops_semaphore st' = enqueued_ops_semaphore (listener s)"
      and rq': "requests st' = requests (listener s)"
      by blast
    let ?s' = "\<lparr>listener = st', consumer = In_service (Some a) (dispatch env (requests (listener s) a))\<rparr>"
    have "sys_inv lims ?s' p q'"
      using inv q At_mutex wf' sem' rq' by (auto simp: sys_inv_def in_flight_def)
    moreover have "r = Done ?s'" using st At_mutex t by simp
    ultimately show ?thesis using q At_mutex by auto
  next
    case False
    with st At_mutex show ?thesis by (auto simp: dequeue_take_def)
  qed
next
  case (In_service x1 x2)
  with st show ?thesis by auto
qed

lemma step_Put_back_inv:
  assumes inv: "sys_inv lims s p q" and st: "step lims Put_back s = r"
  shows "r = Blocked \<or>
         (\<exists>s' a op. r = Done s' \<and> sys_inv lims s' (a # p) q \<and> consumer s = In_service (Some a) op \<and>
            consumer s' = At_semaphore)"
proof (cases "consumer s")
  case At_semaphore
  with st show ?thesis by auto
next
  case At_mutex
  with st show ?thesis by auto
next
  case (In_service rq op)
  with inv obtain a where rq: "rq = Some a" by (cases rq) (auto simp: sys_inv_def)
  from inv In_service rq have wf: "wf_lists (listener s) p q" and fr: "a \<notin> set (p @ q)"
    and d: "distinct (p @ q)" and full: "set (p @ q) \<union> {a} = {..< max_enqueued_operations}"
    and sem: "enqueued_ops_semaphore (listener s) = length q"
    and sz: "\<forall>a. sized lims (requests (listener s) a)"
    by (auto simp: sys_inv_def in_flight_def)
  from dequeue_put_back_push [OF wf fr]
  obtain st' where pb: "dequeue_put_back (Some a) (listener s) = Done st'"
    and wf': "wf_lists st' (a # p) q" and sem': "enqueued_ops_semaphore st' = enqueued_ops_semaphore (listener s)"
    and same: "\<forall>b. \<exists>nx. requests st' b = (requests (listener s) b)\<lparr>r_next := nx\<rparr>"
    by blast
  have sz': "\<forall>b. sized lims (requests st' b)"
  proof
    fix b
    from same obtain nx where "requests st' b = (requests (listener s) b)\<lparr>r_next := nx\<rparr>" by blast
    with sz show "sized lims (requests st' b)" by simp
  qed
  let ?s' = "\<lparr>listener = st', consumer = At_semaphore\<rparr>"
  have "sys_inv lims ?s' (a # p) q"
    using wf' sem' sem fr d full sz' by (auto simp: sys_inv_def in_flight_def)
  moreover have "r = Done ?s'" using st In_service rq pb by simp
  ultimately show ?thesis using In_service rq by auto
qed

lemma step_inv:
  assumes "sys_inv lims s p q"
  shows "step lims a s = Blocked \<or> step lims a s = Aborted Wait_guarantee_failed \<or>
         (\<exists>s' p' q'. step lims a s = Done s' \<and> sys_inv lims s' p' q')"
proof (cases a)
  case (Enqueue env v c a0 a1 a2 pn)
  with step_Enqueue_inv [OF assms refl, of env v c a0 a1 a2 pn] show ?thesis by auto
next
  case (Semaphore_wait res)
  with step_Semaphore_wait_inv [OF assms refl, of res] show ?thesis by auto
next
  case (Take env)
  with step_Take_inv [OF assms refl, of env] show ?thesis by blast
next
  case Put_back
  with step_Put_back_inv [OF assms refl] show ?thesis by blast
qed

lemma exec_inv:
  "sys_inv lims s p q \<Longrightarrow>
   exec lims as s = Blocked \<or> exec lims as s = Aborted Wait_guarantee_failed \<or>
   (\<exists>s' p' q'. exec lims as s = Done s' \<and> sys_inv lims s' p' q')"
proof (induction as arbitrary: s p q)
  case Nil
  then show ?case by auto
next
  case (Cons a as)
  from step_inv [OF Cons.prems, of a]
  consider "step lims a s = Blocked" | "step lims a s = Aborted Wait_guarantee_failed"
    | s' p' q' where "step lims a s = Done s'" "sys_inv lims s' p' q'" by blast
  then show ?case
  proof cases
    case 1 then show ?thesis by simp
  next
    case 2 then show ?thesis by simp
  next
    case 3
    with Cons.IH [OF 3(2)] show ?thesis by simp
  qed
qed

lemma reachable_inv:
  "exec lims as (boot lims junk) = Done s \<Longrightarrow> \<exists>p q. sys_inv lims s p q"
  using exec_inv [OF sys_inv_boot, of lims as junk] by auto

lemma sys_inv_walk:
  assumes "sys_inv lims s p q"
  shows "free_pool (listener s) = Some p" and "pending_queue (listener s) = Some q"
  using assms sys_inv_length [OF assms]
  by (simp_all add: sys_inv_def wf_lists_def free_pool_def pending_queue_def walk_path)

lemma reached_Done: "reached r \<Longrightarrow> \<exists>s. r = Done s"
  by (cases r) (simp_all add: reached_def)

subsection \<open>Calls in sequence\<close>

lemma enqueue_all_at_rest:
  "at_rest lims st (ps @ p) q \<Longrightarrow> length cs = length ps \<Longrightarrow> \<forall>c \<in> set cs. passes_checks lims c \<Longrightarrow>
   \<exists>st'. enqueue_all lims cs st = Inr (map (\<lambda>a. (0, Some a)) ps, st') \<and>
         at_rest lims st' p (q @ ps) \<and>
         map (\<lambda>a. view (requests st' a)) ps = map sent cs \<and>
         (\<forall>a. a \<notin> set ps \<longrightarrow> view (requests st' a) = view (requests st a))"
proof (induction cs arbitrary: ps st q)
  case Nil
  then show ?case by simp
next
  case (Cons c cs)
  then obtain op ps' where ps: "ps = op # ps'" by (cases ps) auto
  from Cons.prems ps have rest: "at_rest lims st (op # (ps' @ p)) q" and ok: "passes_checks lims c"
    by simp_all
  from enqueue_at_rest [OF rest ok]
  obtain st1 where e: "enqueue_call lims c st = Inr (0, st1)"
    and rest1: "at_rest lims st1 (ps' @ p) (q @ [op])" and tl: "tail st1 = Some op"
    and v: "view (requests st1 op) = sent c"
    and o: "\<forall>a. a \<noteq> op \<longrightarrow> view (requests st1 a) = view (requests st a)" by blast
  from Cons.prems ps have len: "length cs = length ps'" and oks: "\<forall>c \<in> set cs. passes_checks lims c"
    by simp_all
  from Cons.IH [OF rest1 len oks]
  obtain st' where ea: "enqueue_all lims cs st1 = Inr (map (\<lambda>a. (0, Some a)) ps', st')"
    and rest': "at_rest lims st' p ((q @ [op]) @ ps')"
    and vs: "map (\<lambda>a. view (requests st' a)) ps' = map sent cs"
    and os: "\<forall>a. a \<notin> set ps' \<longrightarrow> view (requests st' a) = view (requests st1 a)" by blast
  from rest have "op \<notin> set ps'" by (simp add: at_rest_def)
  with os v have vop: "view (requests st' op) = sent c" by simp
  have "\<forall>a. a \<notin> set ps \<longrightarrow> view (requests st' a) = view (requests st a)"
    using os o ps by simp
  moreover have "enqueue_all lims (c # cs) st = Inr (map (\<lambda>a. (0, Some a)) ps, st')"
    using e ea tl ps by simp
  moreover have "at_rest lims st' p (q @ ps)" using rest' ps by simp
  moreover have "map (\<lambda>a. view (requests st' a)) ps = map sent (c # cs)"
    using vs vop ps by simp
  ultimately show ?case by blast
qed

lemma serve_at_rest:
  "at_rest lims st p (qs @ q) \<Longrightarrow> length es = length qs \<Longrightarrow> \<forall>e \<in> set es. waits_succeed e \<Longrightarrow>
   \<exists>served st'. serve es st = Done (served, st') \<and>
         map fst served = map Some qs \<and>
         map (fst \<circ> snd) served = map (\<lambda>a. Some (view (requests st a))) qs \<and>
         at_rest lims st' (rev qs @ p) q \<and>
         (\<forall>a. view (requests st' a) = view (requests st a))"
proof (induction es arbitrary: qs st p)
  case Nil
  then show ?case by simp
next
  case (Cons e es)
  then obtain r qs' where qs: "qs = r # qs'" by (cases qs) auto
  from Cons.prems qs have rest: "at_rest lims st p (r # (qs' @ q))" and ok: "waits_succeed e"
    by simp_all
  from iteration_at_rest [OF rest ok]
  obtain st1 where it: "dequeue_iteration e st = Done (dispatch e (requests st r), Some r, st1)"
    and rest1: "at_rest lims st1 (r # p) (qs' @ q)"
    and v1: "\<forall>a. view (requests st1 a) = view (requests st a)" by blast
  from Cons.prems qs have len: "length es = length qs'" and oks: "\<forall>e \<in> set es. waits_succeed e"
    by simp_all
  from Cons.IH [OF rest1 len oks]
  obtain served st' where sv: "serve es st1 = Done (served, st')"
    and slots: "map fst served = map Some qs'"
    and views: "map (fst \<circ> snd) served = map (\<lambda>a. Some (view (requests st1 a))) qs'"
    and rest': "at_rest lims st' (rev qs' @ r # p) q"
    and v': "\<forall>a. view (requests st' a) = view (requests st1 a)" by blast
  let ?served = "(Some r, Some (view (requests st1 r)), dispatch e (requests st r)) # served"
  have "serve (e # es) st = Done (?served, st')" using it sv by simp
  moreover have "map fst ?served = map Some qs" using slots qs by simp
  moreover have "map (fst \<circ> snd) ?served = map (\<lambda>a. Some (view (requests st a))) qs"
    using views v1 qs by simp
  moreover have "at_rest lims st' (rev qs @ p) q" using rest' qs by simp
  moreover have "\<forall>a. view (requests st' a) = view (requests st a)" using v' v1 by simp
  ultimately show ?case by blast
qed

lemma reachable_at_rest:
  assumes "exec lims acts (boot lims junk) = Done s" and "consumer s = At_semaphore"
  shows "\<exists>p q. at_rest lims (listener s) p q"
  using reachable_inv [OF assms(1)] sys_inv_at_rest [OF _ assms(2)] by blast

lemma at_rest_empty_queue:
  assumes "at_rest lims st p q" and "pending_queue st = Some []"
  shows "q = []" and "length p = max_enqueued_operations"
  using assms at_rest_walk [OF assms(1)] at_rest_length [OF assms(1)] by simp_all

lemma passes_call_C: "passes_checks short_limits call_C"
  by (simp add: passes_checks_def call_C_def short_limits_def listener_up_def always_initialized_def
      strlen_def c_str_def NUL_def pipe_prefix_def pipe_name_max_def)

lemma passes_call_load: "passes_checks short_limits call_load"
  by (simp add: passes_checks_def call_load_def short_limits_def listener_up_def always_initialized_def
      strlen_def c_str_def NUL_def pipe_prefix_def pipe_name_max_def)

lemma waits_pipe_opens: "waits_succeed pipe_opens"
  by (simp add: waits_succeed_def pipe_opens_def)

lemma waits_open_fails: "waits_succeed open_fails"
  by (simp add: waits_succeed_def open_fails_def)

lemma boot_idle:
  "exec lims [] (boot lims junk) = Done (boot lims junk)" "consumer (boot lims junk) = At_semaphore"
  "pending_queue (listener (boot lims junk)) = Some []"
  using at_rest_walk [OF at_rest_init, of lims junk] by (simp_all add: boot_def)

subsection \<open>Dispatch\<close>


lemma upt3: "[0 ..< arg_count_max] = [0, 1, 2]"
  by (simp add: arg_count_max_def upt_rec)

lemma dispatch_V1:
  assumes v: "view r = (ATTACH_API_V1, c, [a0, a1, a2], pn)"
  shows "dispatch e r =
     (case create_file e pn True of
        None \<Rightarrow> None
      | Some h \<Rightarrow> Some \<lparr>op_name = c, op_args = [Some a0, Some a1, Some a2], op_pipe = \<lparr>hPipe = Some h\<rparr>\<rparr>)"
proof -
  from v have ver: "ver r = ATTACH_API_V1" and c: "c_str (cmd r) = c"
    and args: "map c_str (r_arg r) = [a0, a1, a2]" and pn: "c_str (pipe r) = pn"
    by (simp_all add: view_def)
  from args obtain b0 b1 b2 where b: "r_arg r = [b0, b1, b2]" by auto
  with args have "c_str b0 = a0" "c_str b1 = a1" "c_str b2 = a2" by simp_all
  then have args3: "fold (\<lambda>i this. append_arg this (arg r (int i))) [0 ..< arg_count_max] this0 =
      this0\<lparr>op_args := op_args this0 @ [Some a0, Some a1, Some a2]\<rparr>" for this0
    unfolding upt3 using b by (simp add: arg_def arg_count_max_def append_arg_def)
  from ver c pn show ?thesis
    by (simp add: dispatch_def args3 set_name_def
        open_pipe_def pipe_open_def new_Win32AttachOperation_def Let_def split: option.splits)
qed

lemma enqueue_at_rest_stored:
  assumes rest: "at_rest lims st (op # p) q" and ok: "passes_checks lims c"
  shows "\<exists>st'. enqueue_call lims c st = Inr (0, st') \<and>
           requests st' op = request_set lims ((requests st op)\<lparr>r_next := None\<rparr>) (call_ver c)
             (Some (call_pipename c)) (Some (call_cmd c)) (Some (call_arg0 c)) (Some (call_arg1 c))
             (Some (call_arg2 c))"
proof -
  from rest have wf: "wf_lists st (op # p) q" and d: "distinct (op # p @ q)"
    and sem: "enqueued_ops_semaphore st = length q"
    by (simp_all add: at_rest_def)
  from at_rest_length [OF rest] sem have "enqueued_ops_semaphore st < max_enqueued_operations" by simp
  from enqueue_locked_push [OF wf d this, of lims "call_ver c" "call_cmd c" "call_arg0 c" "call_arg1 c" "call_arg2 c" "call_pipename c"]
  show ?thesis by (auto simp: enqueue_call_passes [OF ok])
qed



lemma boot_pool: "free_pool (listener (boot lims junk)) = Some [3, 2, 1, 0]"
  using at_rest_walk(1) [OF at_rest_init, of lims junk] by (simp add: boot_def)

lemma c_str_longest_pipename:
  "c_str (call_pipename call_longest) = pipe_prefix @ replicate 247 (CHR ''p'')"
proof -
  have "NUL \<notin> set (pipe_prefix @ replicate 247 (CHR ''p''))"
    by (simp add: pipe_prefix_def NUL_def)
  from c_str_no_terminator [OF this] show ?thesis by (simp add: call_longest_def)
qed

lemma strlen_longest_pipename: "strlen (call_pipename call_longest) = pipe_name_max"
  by (simp add: strlen_def c_str_longest_pipename pipe_prefix_def pipe_name_max_def)

lemma longest_strings:
  "c_str (call_cmd call_longest) = ''load''" "c_str (call_arg0 call_longest) = ''inst''"
  "c_str (call_arg1 call_longest) = ''true''" "c_str (call_arg2 call_longest) = ''4444''"
  by (simp_all add: call_longest_def c_str_def NUL_def)

lemma closes_append [simp]: "closes (xs @ ys) = closes xs + closes ys"
  by (simp add: closes_def)

lemma flushes_append [simp]: "flushes (xs @ ys) = flushes xs + flushes ys"
  by (simp add: flushes_def)

section \<open>The claims\<close>

text \<open>
  Claim C1.  From a reachable state in which the consumer waits on the semaphore and no
  request is pending (the initialized state is one), any calls of \<^verbatim>\<open>enqueue\<close> that
  pass its checks, at most \<^verbatim>\<open>max_enqueued_operations\<close> of them, each return 0, and
  the iterations of \<^verbatim>\<open>dequeue\<close> that follow pop the slots in the order in which
  the calls appended them: the \<open>k\<close>-th iteration pops the slot that the \<open>k\<close>-th call
  left at \<^verbatim>\<open>_tail\<close>, and finds in it what the \<open>k\<close>-th call sent.
\<close>

theorem fifo_order:
  assumes reach: "exec lims acts (boot lims junk) = Done s"
    and idle: "consumer s = At_semaphore"
    and empty: "pending_queue (listener s) = Some []"
    and calls: "\<forall>c \<in> set cs. passes_checks lims c"
    and cap: "length cs \<le> max_enqueued_operations"
    and waits: "\<forall>e \<in> set es. waits_succeed e"
    and len: "length es = length cs"
  shows "\<exists>slots st' served st''.
           enqueue_all lims cs (listener s) = Inr (map (\<lambda>a. (0, Some a)) slots, st') \<and>
           length slots = length cs \<and>
           serve es st' = Done (served, st'') \<and>
           map fst served = map Some slots \<and>
           map (fst \<circ> snd) served = map (Some \<circ> sent) cs"
proof -
  from reachable_at_rest [OF reach idle] obtain p q where rest: "at_rest lims (listener s) p q" by blast
  from at_rest_empty_queue [OF rest empty] have q: "q = []" and lp: "length p = max_enqueued_operations" .
  define slots where "slots = take (length cs) p"
  have p: "p = slots @ drop (length cs) p" and ls: "length slots = length cs"
    using cap lp by (simp_all add: slots_def)
  from rest q p have rest0: "at_rest lims (listener s) (slots @ drop (length cs) p) []" by simp
  from enqueue_all_at_rest [OF rest0 ls [symmetric] calls]
  obtain st' where ea: "enqueue_all lims cs (listener s) = Inr (map (\<lambda>a. (0, Some a)) slots, st')"
    and rest': "at_rest lims st' (drop (length cs) p) ([] @ slots)"
    and vs: "map (\<lambda>a. view (requests st' a)) slots = map sent cs" by blast
  from rest' have rest'': "at_rest lims st' (drop (length cs) p) (slots @ [])" by simp
  from len ls have les: "length es = length slots" by simp
  from serve_at_rest [OF rest'' les waits]
  obtain served st'' where sv: "serve es st' = Done (served, st'')"
    and s1: "map fst served = map Some slots"
    and s2: "map (fst \<circ> snd) served = map (\<lambda>a. Some (view (requests st' a))) slots" by blast
  have "map (\<lambda>a. Some (view (requests st' a))) slots = map Some (map (\<lambda>a. view (requests st' a)) slots)"
    by simp
  also have "\<dots> = map (Some \<circ> sent) cs" by (simp add: vs)
  finally have "map (fst \<circ> snd) served = map (Some \<circ> sent) cs" using s2 by simp
  with ea ls sv s1 show ?thesis by blast
qed

theorem fifo_order_witness:
  "exec short_limits [] (boot short_limits no_junk) = Done (boot short_limits no_junk) \<and>
   consumer (boot short_limits no_junk) = At_semaphore \<and>
   pending_queue (listener (boot short_limits no_junk)) = Some [] \<and>
   passes_checks short_limits call_C \<and> passes_checks short_limits call_load \<and>
   waits_succeed open_fails \<and> waits_succeed pipe_opens \<and>
   (\<exists>slots st' served st''.
       enqueue_all short_limits [call_C, call_load] (listener (boot short_limits no_junk)) =
         Inr (map (\<lambda>a. (0, Some a)) slots, st') \<and>
       length slots = length [call_C, call_load] \<and>
       serve [open_fails, pipe_opens] st' = Done (served, st'') \<and>
       map fst served = map Some slots \<and>
       map (fst \<circ> snd) served = map (Some \<circ> sent) [call_C, call_load])"
  using fifo_order [of short_limits "[]" no_junk "boot short_limits no_junk" "[call_C, call_load]"
      "[open_fails, pipe_opens]"]
    boot_idle [of short_limits no_junk] passes_call_C passes_call_load waits_pipe_opens waits_open_fails
  by (simp add: max_enqueued_operations_def)

text \<open>
  Claim C2.  In every state that a schedule of calls of \<^verbatim>\<open>enqueue\<close> and steps of
  \<^verbatim>\<open>dequeue\<close> reaches from the initialized state, the available list, the list of
  enqueued operations and the request the consumer holds between its pop and its putting
  back are disjoint and free of repetitions, together they are exactly the
  \<^verbatim>\<open>max_enqueued_operations\<close> preallocated slots (so none is ever lost), and the list
  of enqueued operations is no longer than the capacity.
\<close>

theorem slots_partitioned:
  assumes "exec lims acts (boot lims junk) = Done s"
  shows "\<exists>p q. free_pool (listener s) = Some p \<and> pending_queue (listener s) = Some q \<and>
           distinct (p @ q @ in_flight s) \<and>
           set (p @ q @ in_flight s) = {..< max_enqueued_operations} \<and>
           length q \<le> max_enqueued_operations"
proof -
  from reachable_inv [OF assms] obtain p q where inv: "sys_inv lims s p q" by blast
  from sys_inv_length [OF inv] have "length q \<le> max_enqueued_operations" by simp
  with inv sys_inv_walk [OF inv] show ?thesis by (auto simp: sys_inv_def)
qed

theorem slots_partitioned_witness:
  "\<exists>s. exec short_limits [ping, Semaphore_wait WAIT_OBJECT_0, Take pipe_opens] (boot short_limits no_junk) = Done s \<and>
       (\<exists>p q. free_pool (listener s) = Some p \<and> pending_queue (listener s) = Some q \<and>
           distinct (p @ q @ in_flight s) \<and>
           set (p @ q @ in_flight s) = {..< max_enqueued_operations} \<and>
           length q \<le> max_enqueued_operations)"
proof -
  have "reached (exec short_limits [ping, Semaphore_wait WAIT_OBJECT_0, Take pipe_opens] (boot short_limits no_junk))"
    by code_simp
  then obtain s where s: "exec short_limits [ping, Semaphore_wait WAIT_OBJECT_0, Take pipe_opens] (boot short_limits no_junk) = Done s"
    using reached_Done by blast
  from slots_partitioned [OF s] s show ?thesis by blast
qed

text \<open>
  Claim C3.  From a reachable state in which the consumer waits on the semaphore and no
  request is pending, \<^verbatim>\<open>max_enqueued_operations\<close> calls that pass the
  checks return 0 each, and one more returns \<^verbatim>\<open>ATTACH_ERROR_RESOURCE\<close> (101) at
  once, the state unchanged; after one iteration of \<^verbatim>\<open>dequeue\<close>, whatever it makes
  of the request, the available list holds the one slot just put back, and a further
  call returns 0.
\<close>

theorem pool_exhaustion:
  assumes reach: "exec lims acts (boot lims junk) = Done s"
    and idle: "consumer s = At_semaphore"
    and empty: "pending_queue (listener s) = Some []"
    and calls: "\<forall>c \<in> set cs. passes_checks lims c"
    and n: "length cs = max_enqueued_operations"
    and extra: "passes_checks lims c5"
    and again: "passes_checks lims c6"
    and waits: "waits_succeed e"
  shows "\<exists>slots st4.
           enqueue_all lims cs (listener s) = Inr (map (\<lambda>a. (0, Some a)) slots, st4) \<and>
           length slots = max_enqueued_operations \<and>
           enqueue_call lims c5 st4 = Inr (101, st4) \<and>
           (\<exists>op a st5 st6.
              dequeue_iteration e st4 = Done (op, Some a, st5) \<and>
              free_pool st5 = Some [a] \<and>
              enqueue_call lims c6 st5 = Inr (0, st6))"
proof -
  from reachable_at_rest [OF reach idle] obtain p q where rest: "at_rest lims (listener s) p q" by blast
  from at_rest_empty_queue [OF rest empty] have q: "q = []" and lp: "length p = max_enqueued_operations" .
  from rest q have rest0: "at_rest lims (listener s) (p @ []) []" by simp
  from n lp have len: "length cs = length p" by simp
  from enqueue_all_at_rest [OF rest0 len calls]
  obtain st4 where ea: "enqueue_all lims cs (listener s) = Inr (map (\<lambda>a. (0, Some a)) p, st4)"
    and rest4: "at_rest lims st4 [] ([] @ p)" by blast
  from rest4 have rest4': "at_rest lims st4 [] p" by simp
  have full: "enqueue_call lims c5 st4 = Inr (101, st4)"
    using enqueue_at_rest_full [OF rest4' extra] by (simp add: ATTACH_ERROR_RESOURCE_def)
  from lp obtain a p' where p: "p = a # p'" by (cases p) (auto simp: max_enqueued_operations_def)
  from rest4' p have "at_rest lims st4 [] (a # p')" by simp
  from iteration_at_rest [OF this waits]
  obtain st5 where it: "dequeue_iteration e st4 = Done (dispatch e (requests st4 a), Some a, st5)"
    and rest5: "at_rest lims st5 [a] p'" by blast
  have fp: "free_pool st5 = Some [a]" by (rule at_rest_walk [OF rest5])
  from enqueue_at_rest [OF rest5 again]
  obtain st6 where e6: "enqueue_call lims c6 st5 = Inr (0, st6)" by blast
  from ea lp full it fp e6 show ?thesis by blast
qed

theorem pool_exhaustion_witness:
  "exec short_limits [] (boot short_limits no_junk) = Done (boot short_limits no_junk) \<and>
   consumer (boot short_limits no_junk) = At_semaphore \<and>
   pending_queue (listener (boot short_limits no_junk)) = Some [] \<and>
   passes_checks short_limits call_C \<and> passes_checks short_limits call_load \<and>
   length [call_C, call_load, call_load, call_C] = max_enqueued_operations \<and>
   waits_succeed open_fails \<and>
   (\<exists>slots st4.
       enqueue_all short_limits [call_C, call_load, call_load, call_C] (listener (boot short_limits no_junk)) =
         Inr (map (\<lambda>a. (0, Some a)) slots, st4) \<and>
       length slots = max_enqueued_operations \<and>
       enqueue_call short_limits call_C st4 = Inr (101, st4) \<and>
       (\<exists>op a st5 st6.
          dequeue_iteration open_fails st4 = Done (op, Some a, st5) \<and>
          free_pool st5 = Some [a] \<and>
          enqueue_call short_limits call_load st5 = Inr (0, st6)))"
  using pool_exhaustion [of short_limits "[]" no_junk "boot short_limits no_junk"
      "[call_C, call_load, call_load, call_C]" call_C call_load open_fails]
    boot_idle [of short_limits no_junk] passes_call_C passes_call_load waits_open_fails
  by (simp add: max_enqueued_operations_def)

text \<open>
  Claim C4.  Once the readiness check has passed, a command longer than the maximum name
  length, an argument longer than the maximum argument length, a pipe name longer than
  its maximum, or a pipe name that does not begin with the pipe prefix makes
  \<^verbatim>\<open>enqueue\<close> return \<^verbatim>\<open>ATTACH_ERROR_ILLEGALARG\<close> (102), and the state (the
  available list, the list of enqueued operations, the semaphore) is the one it was
  called in.
\<close>

theorem enqueue_illegal_argument:
  assumes "fst (wait_for_listener (is_initialized env) 0)"
    and "strlen command > name_length_max lims \<or> strlen arg0 > arg_length_max lims \<or>
         strlen arg1 > arg_length_max lims \<or> strlen arg2 > arg_length_max lims \<or>
         strlen pipename > pipe_name_max \<or>
         take (length pipe_prefix) (c_str pipename) \<noteq> pipe_prefix"
  shows "enqueue lims env v command arg0 arg1 arg2 pipename st = Inr (102, st)"
  using assms by (auto simp: enqueue_def ATTACH_ERROR_ILLEGALARG_def strstr_pipe_prefix)

theorem enqueue_illegal_argument_witness:
  "enqueue jdk_limits listener_up ATTACH_API_V1 (replicate 17 (CHR ''x'')) [] [] [] pipe_prefix
     (init jdk_limits no_junk) = Inr (102, init jdk_limits no_junk)"
  using enqueue_illegal_argument [where env = listener_up and command = "replicate 17 (CHR ''x'')"
      and lims = jdk_limits and ?arg0.0 = "[]" and ?arg1.0 = "[]" and ?arg2.0 = "[]" and pipename = pipe_prefix
      and v = ATTACH_API_V1 and st = "init jdk_limits no_junk"]
  by (simp add: listener_up_def always_initialized_def jdk_limits_def strlen_def c_str_def NUL_def)



text \<open>
  Claim C6 says that the count of the semaphore equals the length of the list of
  enqueued operations in every reachable state.  After one \<^verbatim>\<open>enqueue\<close> and the
  consumer's wait on the semaphore, before its wait on the mutex, the count is 0 and the
  list holds one request.
\<close>

theorem semaphore_equals_queue_length_counterexample:
  "observe semaphore_count (exec short_limits [ping, Semaphore_wait WAIT_OBJECT_0] (boot short_limits no_junk)) = Some 0 \<and>
   observe queue_length (exec short_limits [ping, Semaphore_wait WAIT_OBJECT_0] (boot short_limits no_junk)) = Some (Some 1)"
  by code_simp

text \<open>
  Claim C6, amended.  In every reachable state the count of the semaphore is the length
  of the list of enqueued operations, less one while the consumer stands between its
  wait on the semaphore and its pop, and it never exceeds
  \<^verbatim>\<open>max_enqueued_operations\<close>.  So when the consumer has returned from the wait on
  the semaphore and takes the mutex, \<^verbatim>\<open>_head\<close> is not null, the local
  \<^verbatim>\<open>request\<close> is never null when it is put back, and no step ends in a null
  dereference or in the failed \<^verbatim>\<open>guarantee\<close> of \<^verbatim>\<open>ReleaseSemaphore\<close>.
\<close>

theorem semaphore_mirrors_queue:
  assumes "exec lims acts (boot lims junk) = Done s"
  shows "\<exists>q. pending_queue (listener s) = Some q \<and>
           enqueued_ops_semaphore (listener s) + (if consumer s = At_mutex then 1 else 0) = length q \<and>
           enqueued_ops_semaphore (listener s) \<le> max_enqueued_operations \<and>
           (consumer s = At_mutex \<longrightarrow> head (listener s) \<noteq> None) \<and>
           (\<forall>op. consumer s \<noteq> In_service None op) \<and>
           (\<forall>a. step lims a s \<noteq> Aborted Null_dereference \<and>
                step lims a s \<noteq> Aborted Semaphore_guarantee_failed)"
proof -
  from reachable_inv [OF assms] obtain p q where inv: "sys_inv lims s p q" by blast
  have pq: "pending_queue (listener s) = Some q" by (rule sys_inv_walk [OF inv])
  from inv have sem: "enqueued_ops_semaphore (listener s) + (if consumer s = At_mutex then 1 else 0) = length q"
    and nn: "\<forall>op. consumer s \<noteq> In_service None op"
    and ph: "path (requests (listener s)) (head (listener s)) q"
    by (simp_all add: sys_inv_def wf_lists_def)
  from sys_inv_length [OF inv] sem have le: "enqueued_ops_semaphore (listener s) \<le> max_enqueued_operations"
    by simp
  have hd: "consumer s = At_mutex \<longrightarrow> head (listener s) \<noteq> None"
  proof
    assume "consumer s = At_mutex"
    with sem have "q \<noteq> []" by auto
    with ph show "head (listener s) \<noteq> None" by (cases q) auto
  qed
  have "\<forall>a. step lims a s \<noteq> Aborted Null_dereference \<and> step lims a s \<noteq> Aborted Semaphore_guarantee_failed"
  proof
    fix a
    from step_inv [OF inv, of a]
    show "step lims a s \<noteq> Aborted Null_dereference \<and> step lims a s \<noteq> Aborted Semaphore_guarantee_failed"
      by auto
  qed
  with pq sem le hd nn show ?thesis by blast
qed

theorem semaphore_mirrors_queue_witness:
  "\<exists>s. exec short_limits [ping, ping, Semaphore_wait WAIT_OBJECT_0] (boot short_limits no_junk) = Done s \<and>
     (\<exists>q. pending_queue (listener s) = Some q \<and>
           enqueued_ops_semaphore (listener s) + (if consumer s = At_mutex then 1 else 0) = length q \<and>
           enqueued_ops_semaphore (listener s) \<le> max_enqueued_operations \<and>
           (consumer s = At_mutex \<longrightarrow> head (listener s) \<noteq> None) \<and>
           (\<forall>op. consumer s \<noteq> In_service None op) \<and>
           (\<forall>a. step short_limits a s \<noteq> Aborted Null_dereference \<and>
                step short_limits a s \<noteq> Aborted Semaphore_guarantee_failed))"
proof -
  have "reached (exec short_limits [ping, ping, Semaphore_wait WAIT_OBJECT_0] (boot short_limits no_junk))"
    by code_simp
  then obtain s where s: "exec short_limits [ping, ping, Semaphore_wait WAIT_OBJECT_0] (boot short_limits no_junk) = Done s"
    using reached_Done by blast
  from semaphore_mirrors_queue [OF s] s show ?thesis by blast
qed

text \<open>
  Claim C7 says that a caller who never finds the listener initialized sleeps at most
  ten times one second before \<^verbatim>\<open>ATTACH_ERROR_DISABLED\<close> (100) is returned, as the
  comments of the loop do ("wait up to 10 seconds", "try for 10 seconds").  The loop
  leaves by \<^verbatim>\<open>sleep_count > 10\<close>, tested after the increment: it returns 100, but
  only after the eleventh \<^verbatim>\<open>Sleep(1000)\<close>.
\<close>

theorem wait_for_listener_sleeps_eleven_times:
  "wait_for_listener never_initialized 0 = (False, 11) \<and>
   enqueue lims listener_down v command arg0 arg1 arg2 pipename st = Inr (100, st)"
proof -
  have "wait_for_listener never_initialized 0 = (False, 11)"
    by (simp add: never_initialized_def)
  then show ?thesis
    by (simp add: enqueue_def listener_down_def ATTACH_ERROR_DISABLED_def)
qed

text \<open>
  Claim C8.  A version 1 call of \<^verbatim>\<open>enqueue\<close> that passes the checks, on a state
  with nothing pending, stores its command and its three arguments in the slot, and the
  \<^verbatim>\<open>dequeue\<close> that follows, when the pipe opens, returns an operation whose name
  and arguments are those strings; the witness is the command \<open>C\<close> with the
  arguments \<open>a\<close>, empty, empty.
\<close>

theorem v1_round_trip:
  assumes reach: "exec lims acts (boot lims junk) = Done s"
    and idle: "consumer s = At_semaphore"
    and empty: "pending_queue (listener s) = Some []"
    and call: "passes_checks lims c"
    and v1: "call_ver c = ATTACH_API_V1"
    and waits: "waits_succeed (envs 0)"
    and opens: "create_file (envs 0) (c_str (call_pipename c)) True = Some h"
  shows "\<exists>st' a this st''.
           enqueue_call lims c (listener s) = Inr (0, st') \<and>
           tail st' = Some a \<and> view (requests st' a) = sent c \<and>
           dequeue envs st' = Done (this, st'') \<and>
           op_name this = c_str (call_cmd c) \<and>
           op_args this = [Some (c_str (call_arg0 c)), Some (c_str (call_arg1 c)), Some (c_str (call_arg2 c))] \<and>
           hPipe (op_pipe this) = Some h"
proof -
  from reachable_at_rest [OF reach idle] obtain p q where rest: "at_rest lims (listener s) p q" by blast
  from at_rest_empty_queue [OF rest empty] have q: "q = []" and lp: "length p = max_enqueued_operations" .
  from lp obtain a p' where p: "p = a # p'" by (cases p) (auto simp: max_enqueued_operations_def)
  from rest p q have rest0: "at_rest lims (listener s) (a # p') []" by simp
  from enqueue_at_rest [OF rest0 call]
  obtain st' where e: "enqueue_call lims c (listener s) = Inr (0, st')"
    and rest': "at_rest lims st' p' ([] @ [a])" and tl: "tail st' = Some a"
    and v: "view (requests st' a) = sent c" by blast
  from rest' have rest'': "at_rest lims st' p' [a]" by simp
  from iteration_at_rest [OF rest'' waits]
  obtain st'' where it: "dequeue_iteration (envs 0) st' = Done (dispatch (envs 0) (requests st' a), Some a, st'')"
    by blast
  from v v1 have "view (requests st' a) = (ATTACH_API_V1, c_str (call_cmd c),
      [c_str (call_arg0 c), c_str (call_arg1 c), c_str (call_arg2 c)], c_str (call_pipename c))"
    by (simp add: sent_def)
  from dispatch_V1 [OF this, of "envs 0"] opens
  have d: "dispatch (envs 0) (requests st' a) =
      Some \<lparr>op_name = c_str (call_cmd c),
            op_args = [Some (c_str (call_arg0 c)), Some (c_str (call_arg1 c)), Some (c_str (call_arg2 c))],
            op_pipe = \<lparr>hPipe = Some h\<rparr>\<rparr>" by simp
  have "dequeue envs st' = Done (\<lparr>op_name = c_str (call_cmd c),
            op_args = [Some (c_str (call_arg0 c)), Some (c_str (call_arg1 c)), Some (c_str (call_arg2 c))],
            op_pipe = \<lparr>hPipe = Some h\<rparr>\<rparr>, st'')"
    using it d by (simp add: dequeue.simps [of envs st'])
  with e tl v show ?thesis by simp
qed

theorem v1_round_trip_witness:
  "exec short_limits [] (boot short_limits no_junk) = Done (boot short_limits no_junk) \<and>
   consumer (boot short_limits no_junk) = At_semaphore \<and>
   pending_queue (listener (boot short_limits no_junk)) = Some [] \<and>
   passes_checks short_limits call_C \<and> call_ver call_C = ATTACH_API_V1 \<and>
   waits_succeed (always_opens 0) \<and>
   create_file (always_opens 0) (c_str (call_pipename call_C)) True = Some 42 \<and>
   (\<exists>st' a this st''.
       enqueue_call short_limits call_C (listener (boot short_limits no_junk)) = Inr (0, st') \<and>
       tail st' = Some a \<and> view (requests st' a) = sent call_C \<and>
       dequeue always_opens st' = Done (this, st'') \<and>
       op_name this = ''C'' \<and> op_args this = [Some ''a'', Some [], Some []] \<and>
       hPipe (op_pipe this) = Some 42)"
proof -
  have w: "waits_succeed (always_opens 0)" by (simp add: always_opens_def waits_pipe_opens)
  have o: "create_file (always_opens 0) (c_str (call_pipename call_C)) True = Some 42"
    by (simp add: always_opens_def pipe_opens_def opens_def)
  have v: "call_ver call_C = ATTACH_API_V1" by (simp add: call_C_def)
  have c: "c_str (call_cmd call_C) = ''C''" "c_str (call_arg0 call_C) = ''a''"
    "c_str (call_arg1 call_C) = []" "c_str (call_arg2 call_C) = []"
    by (simp_all add: call_C_def c_str_def NUL_def)
  from v1_round_trip [where envs = always_opens, OF boot_idle passes_call_C v w o, of no_junk] c
    boot_idle [of short_limits no_junk] passes_call_C v w o
  show ?thesis by simp
qed

text \<open>
  Claim C9.  \<^verbatim>\<open>complete\<close> on an operation with an opened pipe writes the result
  code, then the output, flushes, and closes the handle, once each, whether the writes
  succeed or fail (a failed write is logged, nothing is written again); the operation
  is then no longer in the store, and a second \<^verbatim>\<open>complete\<close> on it has no object to
  work on.
\<close>

theorem complete_writes_flushes_closes:
  assumes live: "ops this = Some obj" and is_open: "hPipe (op_pipe obj) = Some h"
  shows "\<exists>trace.
           complete encode fSuccess this result result_stream ops = Some (trace, ops (this := None)) \<and>
           trace =
             (if fSuccess 0 then [WriteFile h (encode result) True]
              else [WriteFile h (encode result) False, Log_error]) @
             (if fSuccess 1 then [WriteFile h result_stream True]
              else [WriteFile h result_stream False, Log_error]) @
             [FlushFileBuffers h, CloseHandle h] \<and>
           flushes trace = 1 \<and> closes trace = 1 \<and>
           complete encode fSuccess this result result_stream (ops (this := None)) = None"
  using assms
  by (simp add: complete_def write_reply_def pipe_write_def pipe_flush_def pipe_close_def Let_def
      closes_def flushes_def)

theorem complete_writes_flushes_closes_witness:
  "[7 \<mapsto> an_operation] 7 = Some an_operation \<and> hPipe (op_pipe an_operation) = Some 42 \<and>
   (\<exists>trace.
      complete one_line writes_fail 7 0 ''OK'' [7 \<mapsto> an_operation] =
        Some (trace, [7 \<mapsto> an_operation] (7 := None)) \<and>
      trace = [WriteFile 42 (one_line 0) False, Log_error, WriteFile 42 ''OK'' False, Log_error,
               FlushFileBuffers 42, CloseHandle 42] \<and>
      flushes trace = 1 \<and> closes trace = 1 \<and>
      complete one_line writes_fail 7 0 ''OK'' ([7 \<mapsto> an_operation] (7 := None)) = None)"
  using complete_writes_flushes_closes [of "[7 \<mapsto> an_operation]" 7 an_operation 42 one_line writes_fail 0 "''OK''"]
  by (simp add: an_operation_def writes_fail_def)

text \<open>
  Claim C10.  A call whose command, arguments and pipe name are no longer than their
  bounds (as long as the bound is accepted: only a greater length is rejected) and
  whose pipe name has the prefix returns 0 when a slot is available, and each buffer of
  the slot then holds the whole string followed by NUL bytes up to the size of the
  buffer, which is the bound plus one: nothing is cut, and at least one NUL follows.
  The witness has every length equal to its bound.
\<close>

theorem accepted_strings_stored_whole:
  assumes reach: "exec lims acts (boot lims junk) = Done s"
    and idle: "consumer s = At_semaphore"
    and pool: "free_pool (listener s) = Some (a # p)"
    and ready: "fst (wait_for_listener (is_initialized (call_env c)) 0)"
    and locked: "mutex_wait (call_env c) = WAIT_OBJECT_0"
    and name: "strlen (call_cmd c) \<le> name_length_max lims"
    and args: "strlen (call_arg0 c) \<le> arg_length_max lims" "strlen (call_arg1 c) \<le> arg_length_max lims"
              "strlen (call_arg2 c) \<le> arg_length_max lims"
    and pipe: "strlen (call_pipename c) \<le> pipe_name_max"
    and pref: "take (length pipe_prefix) (c_str (call_pipename c)) = pipe_prefix"
  shows "\<exists>st'. enqueue_call lims c (listener s) = Inr (0, st') \<and>
           r_name (requests st' a) =
             c_str (call_cmd c) @ replicate (name_length_max lims + 1 - strlen (call_cmd c)) NUL \<and>
           r_arg (requests st' a) =
             [c_str (call_arg0 c) @ replicate (arg_length_max lims + 1 - strlen (call_arg0 c)) NUL,
              c_str (call_arg1 c) @ replicate (arg_length_max lims + 1 - strlen (call_arg1 c)) NUL,
              c_str (call_arg2 c) @ replicate (arg_length_max lims + 1 - strlen (call_arg2 c)) NUL] \<and>
           r_pipe (requests st' a) =
             c_str (call_pipename c) @ replicate (pipe_name_max + 1 - strlen (call_pipename c)) NUL"
proof -
  from reachable_at_rest [OF reach idle] obtain p0 q where rest: "at_rest lims (listener s) p0 q" by blast
  from at_rest_walk(1) [OF rest] pool have "p0 = a # p" by simp
  with rest have rest': "at_rest lims (listener s) (a # p) q" by simp
  have ok: "passes_checks lims c"
    using ready locked name args pipe pref by (simp add: passes_checks_def)
  let ?r = "(requests (listener s) a)\<lparr>r_next := None\<rparr>"
  from enqueue_at_rest_stored [OF rest' ok]
  obtain st' where e: "enqueue_call lims c (listener s) = Inr (0, st')"
    and st: "requests st' a = request_set lims ?r (call_ver c)
             (Some (call_pipename c)) (Some (call_cmd c)) (Some (call_arg0 c)) (Some (call_arg1 c))
             (Some (call_arg2 c))" by blast
  from rest have sz: "sized lims ?r" by (simp add: at_rest_def)
  from request_set_fields [OF sz, of "call_ver c" "Some (call_pipename c)" "Some (call_cmd c)"
      "Some (call_arg0 c)" "Some (call_arg1 c)" "Some (call_arg2 c)"]
  obtain b0 b1 b2 where l: "length b0 = arg_length_max lims + 1" "length b1 = arg_length_max lims + 1"
    "length b2 = arg_length_max lims + 1"
    and eq: "request_set lims ?r (call_ver c) (Some (call_pipename c)) (Some (call_cmd c))
          (Some (call_arg0 c)) (Some (call_arg1 c)) (Some (call_arg2 c)) =
       ?r\<lparr>r_ver := call_ver c,
         r_name := set_value (r_name ?r) (Some (call_cmd c)) (name_length_max lims + 1),
         r_arg := [set_value b0 (Some (call_arg0 c)) (arg_length_max lims + 1),
                   set_value b1 (Some (call_arg1 c)) (arg_length_max lims + 1),
                   set_value b2 (Some (call_arg2 c)) (arg_length_max lims + 1)],
         r_pipe := set_value (r_pipe ?r) (Some (call_pipename c)) (pipe_name_max + 1)\<rparr>" by blast
  from sz have n: "length (r_name ?r) = name_length_max lims + 1"
    and pl: "length (r_pipe ?r) = pipe_name_max + 1" by (simp_all add: sized_def)
  have "r_name (requests st' a) =
             c_str (call_cmd c) @ replicate (name_length_max lims + 1 - strlen (call_cmd c)) NUL"
    unfolding st eq using set_value_Some [OF n, of "call_cmd c"] name by simp
  moreover have "r_arg (requests st' a) =
             [c_str (call_arg0 c) @ replicate (arg_length_max lims + 1 - strlen (call_arg0 c)) NUL,
              c_str (call_arg1 c) @ replicate (arg_length_max lims + 1 - strlen (call_arg1 c)) NUL,
              c_str (call_arg2 c) @ replicate (arg_length_max lims + 1 - strlen (call_arg2 c)) NUL]"
    unfolding st eq
    using set_value_Some [OF l(1), of "call_arg0 c"] set_value_Some [OF l(2), of "call_arg1 c"]
      set_value_Some [OF l(3), of "call_arg2 c"] args by simp
  moreover have "r_pipe (requests st' a) =
             c_str (call_pipename c) @ replicate (pipe_name_max + 1 - strlen (call_pipename c)) NUL"
    unfolding st eq using set_value_Some [OF pl, of "call_pipename c"] pipe by simp
  ultimately show ?thesis using e by blast
qed

theorem accepted_strings_stored_whole_witness:
  "exec short_limits [] (boot short_limits no_junk) = Done (boot short_limits no_junk) \<and>
   consumer (boot short_limits no_junk) = At_semaphore \<and>
   free_pool (listener (boot short_limits no_junk)) = Some [3, 2, 1, 0] \<and>
   fst (wait_for_listener (is_initialized (call_env call_longest)) 0) \<and>
   mutex_wait (call_env call_longest) = WAIT_OBJECT_0 \<and>
   strlen (call_cmd call_longest) = name_length_max short_limits \<and>
   strlen (call_arg0 call_longest) = arg_length_max short_limits \<and>
   strlen (call_arg1 call_longest) = arg_length_max short_limits \<and>
   strlen (call_arg2 call_longest) = arg_length_max short_limits \<and>
   strlen (call_pipename call_longest) = pipe_name_max \<and>
   take (length pipe_prefix) (c_str (call_pipename call_longest)) = pipe_prefix \<and>
   (\<exists>st'. enqueue_call short_limits call_longest (listener (boot short_limits no_junk)) = Inr (0, st') \<and>
      r_name (requests st' 3) = ''load'' @ [NUL] \<and>
      r_arg (requests st' 3) = [''inst'' @ [NUL], ''true'' @ [NUL], ''4444'' @ [NUL]] \<and>
      r_pipe (requests st' 3) = pipe_prefix @ replicate 247 (CHR ''p'') @ [NUL])"
proof -
  have r: "fst (wait_for_listener (is_initialized (call_env call_longest)) 0)"
    and m: "mutex_wait (call_env call_longest) = WAIT_OBJECT_0"
    by (simp_all add: call_longest_def listener_up_def always_initialized_def)
  have n: "strlen (call_cmd call_longest) = name_length_max short_limits"
    and a: "strlen (call_arg0 call_longest) = arg_length_max short_limits"
      "strlen (call_arg1 call_longest) = arg_length_max short_limits"
      "strlen (call_arg2 call_longest) = arg_length_max short_limits"
    by (simp_all add: strlen_def longest_strings short_limits_def)
  have p: "take (length pipe_prefix) (c_str (call_pipename call_longest)) = pipe_prefix"
    by (simp add: c_str_longest_pipename)
  have len: "name_length_max short_limits = 4" "arg_length_max short_limits = 4"
    by (simp_all add: short_limits_def)
  from accepted_strings_stored_whole [where lims = short_limits and junk = no_junk and c = call_longest,
      OF boot_idle(1) boot_idle(2) boot_pool r m]
    n a strlen_longest_pipename p
  have "\<exists>st'. enqueue_call short_limits call_longest (listener (boot short_limits no_junk)) = Inr (0, st') \<and>
      r_name (requests st' 3) = ''load'' @ [NUL] \<and>
      r_arg (requests st' 3) = [''inst'' @ [NUL], ''true'' @ [NUL], ''4444'' @ [NUL]] \<and>
      r_pipe (requests st' 3) = pipe_prefix @ replicate 247 (CHR ''p'') @ [NUL]"
    by (simp add: longest_strings c_str_longest_pipename len)
  with boot_idle [of short_limits no_junk] boot_pool [of short_limits no_junk] r m n a
    strlen_longest_pipename p
  show ?thesis by simp
qed

end
